theory Spec2Isabelle
  imports Main
begin

section \<open>The dedup window of the Instagram bot\<close>

text \<open>
  Source: \<^verbatim>\<open>EnhancedInstagramBot\<close> (src/unnamed/part_000). The bot keeps a JavaScript
  \<^verbatim>\<open>Set\<close> of processed message ids, the constant \<^verbatim>\<open>maxProcessedMessageIds\<close> and the
  high-watermark \<^verbatim>\<open>lastMessageCheck\<close>.

  A JavaScript \<^verbatim>\<open>Set\<close> iterates in insertion order, so it is modelled as the list of its
  elements in insertion order: \<^verbatim>\<open>add\<close> appends an absent element and leaves a present one
  where it is, \<^verbatim>\<open>delete\<close> removes the element, \<^verbatim>\<open>values().next().value\<close> is the first
  element (\<^verbatim>\<open>undefined\<close> on an empty set, modelled as \<open>None\<close>).

  A message id is a string or is absent (\<open>None\<close>); the falsy ids are the absent one and the
  empty string. A timestamp is an integer number of milliseconds.
\<close>

type_synonym 'a js_set = "'a list"

definition set_has :: "'a js_set \<Rightarrow> 'a \<Rightarrow> bool" where
  "set_has xs x = (x \<in> set xs)"

definition set_add :: "'a js_set \<Rightarrow> 'a \<Rightarrow> 'a js_set" where
  "set_add xs x = (if set_has xs x then xs else xs @ [x])"

definition set_delete :: "'a js_set \<Rightarrow> 'a \<Rightarrow> 'a js_set" where
  "set_delete xs x = removeAll x xs"

definition set_first :: "'a js_set \<Rightarrow> 'a option" where
  "set_first xs = (case xs of [] \<Rightarrow> None | x # _ \<Rightarrow> Some x)"

record message =
  msg_id :: "string option"
  msg_timestamp :: int

record bot_state =
  processedMessageIds :: "string js_set"
  maxProcessedMessageIds :: nat
  lastMessageCheck :: int

text \<open>The constructor; \<open>t0\<close> is the value of \<^verbatim>\<open>Date.now()\<close> when it runs.\<close>

definition constructor :: "int \<Rightarrow> bot_state" where
  "constructor t0 =
     \<lparr>processedMessageIds = [], maxProcessedMessageIds = 1000, lastMessageCheck = t0\<rparr>"

definition js_falsy_id :: "string option \<Rightarrow> bool" where
  "js_falsy_id i = (case i of None \<Rightarrow> True | Some s \<Rightarrow> s = [])"

text \<open>
  \<^verbatim>\<open>isNewMessage\<close>, statement by statement: the three early returns, then the insertion,
  the watermark update and the eviction of the first element when the set has grown past
  the maximum. The result is the returned boolean and the state after the call.
\<close>

definition evict_first :: "string js_set \<Rightarrow> string js_set" where
  "evict_first xs = (case set_first xs of None \<Rightarrow> xs | Some f \<Rightarrow> set_delete xs f)"

definition isNewMessage :: "bot_state \<Rightarrow> message \<Rightarrow> bool \<times> bot_state" where
  "isNewMessage s m =
     (case msg_id m of
        None \<Rightarrow> (False, s)
      | Some i \<Rightarrow>
          if i = [] then (False, s)
          else if msg_timestamp m \<le> lastMessageCheck s then (False, s)
          else if set_has (processedMessageIds s) i then (False, s)
          else
            let ids1 = set_add (processedMessageIds s) i;
                hw = max (lastMessageCheck s) (msg_timestamp m);
                ids2 = (if length ids1 > maxProcessedMessageIds s
                        then evict_first ids1 else ids1)
            in (True, s\<lparr>processedMessageIds := ids2, lastMessageCheck := hw\<rparr>))"

text \<open>
  \<^verbatim>\<open>checkForNewMessages\<close> walks the messages of the listed threads in order and hands
  every message that \<^verbatim>\<open>isNewMessage\<close> accepts to \<^verbatim>\<open>handleMessage\<close>. The model takes the
  messages in the order of the walk and returns the handled ones, in order, with the
  final state.
\<close>

fun checkForNewMessages :: "bot_state \<Rightarrow> message list \<Rightarrow> message list \<times> bot_state" where
  "checkForNewMessages s [] = ([], s)"
| "checkForNewMessages s (m # ms) =
     (case isNewMessage s m of
        (b, s1) \<Rightarrow>
          (case checkForNewMessages s1 ms of
             (out, s2) \<Rightarrow> ((if b then [m] else []) @ out, s2)))"

definition handled :: "bot_state \<Rightarrow> message list \<Rightarrow> message list" where
  "handled s ms = fst (checkForNewMessages s ms)"

definition state_after :: "bot_state \<Rightarrow> message list \<Rightarrow> bot_state" where
  "state_after s ms = snd (checkForNewMessages s ms)"

definition accepted_ids :: "bot_state \<Rightarrow> message list \<Rightarrow> string list" where
  "accepted_ids s ms = map (\<lambda>m. case msg_id m of None \<Rightarrow> [] | Some i \<Rightarrow> i) (handled s ms)"

text \<open>
  Vocabulary for the statements about the window: \<open>id_seen\<close> says that the id of a
  message is in the set, \<open>window_ok\<close> that the list represents a JavaScript set (no
  element twice) within its maximum, and \<open>keep_last n xs\<close> is the last \<open>n\<close> elements
  of \<open>xs\<close>.
\<close>

definition id_seen :: "bot_state \<Rightarrow> message \<Rightarrow> bool" where
  "id_seen s m = (case msg_id m of None \<Rightarrow> False | Some i \<Rightarrow> set_has (processedMessageIds s) i)"

definition window_ok :: "bot_state \<Rightarrow> bool" where
  "window_ok s = (distinct (processedMessageIds s) \<and>
                  length (processedMessageIds s) \<le> maxProcessedMessageIds s)"

definition keep_last :: "nat \<Rightarrow> 'a list \<Rightarrow> 'a list" where
  "keep_last n xs = drop (length xs - n) xs"

section \<open>JavaScript strings and maps\<close>

text \<open>
  A string is the list of the bytes of its UTF-8 encoding. On well-formed text the empty
  string, equality, concatenation and the prefix test read the same on these bytes as on
  the code units of a JavaScript string, so \<^verbatim>\<open>startsWith\<close> is the prefix test on lists.

  \<^verbatim>\<open>trim\<close>, \<^verbatim>\<open>toLowerCase\<close> and \<^verbatim>\<open>toUpperCase\<close> belong to the JavaScript runtime and follow
  the Unicode tables: the white space of \<^verbatim>\<open>trim\<close> includes U+00A0, U+FEFF, U+2028, U+2029
  and the space separators, and the case mappings cover every script. The handlers take
  the three functions from a record \<open>js_runtime\<close>, and nothing is assumed about them.
\<close>

record js_runtime =
  toLowerCase :: "string \<Rightarrow> string"
  toUpperCase :: "string \<Rightarrow> string"
  trim :: "string \<Rightarrow> string"

text \<open>
  What the three functions compute on a text of ASCII characters: the white space of
  ASCII is the space and the control characters 9 to 13, and the letters with another
  case are the 26 of the alphabet. \<open>ascii_runtime\<close> serves to run the handlers on
  concrete ASCII texts.
\<close>

definition ascii_whitespace :: "char \<Rightarrow> bool" where
  "ascii_whitespace c = (c \<in> set [CHR '' '', CHR 0x09, CHR 0x0A, CHR 0x0B, CHR 0x0C, CHR 0x0D])"

definition ascii_trim :: "string \<Rightarrow> string" where
  "ascii_trim s = rev (dropWhile ascii_whitespace (rev (dropWhile ascii_whitespace s)))"

definition ascii_lower_char :: "char \<Rightarrow> char" where
  "ascii_lower_char c =
     (case map_of (zip ''ABCDEFGHIJKLMNOPQRSTUVWXYZ'' ''abcdefghijklmnopqrstuvwxyz'') c of
        None \<Rightarrow> c | Some d \<Rightarrow> d)"

definition ascii_toLowerCase :: "string \<Rightarrow> string" where
  "ascii_toLowerCase s = map ascii_lower_char s"

definition ascii_upper_char :: "char \<Rightarrow> char" where
  "ascii_upper_char c =
     (case map_of (zip ''abcdefghijklmnopqrstuvwxyz'' ''ABCDEFGHIJKLMNOPQRSTUVWXYZ'') c of
        None \<Rightarrow> c | Some d \<Rightarrow> d)"

definition ascii_toUpperCase :: "string \<Rightarrow> string" where
  "ascii_toUpperCase s = map ascii_upper_char s"

definition ascii_runtime :: js_runtime where
  "ascii_runtime =
     \<lparr>toLowerCase = ascii_toLowerCase, toUpperCase = ascii_toUpperCase, trim = ascii_trim\<rparr>"

definition startsWith :: "string \<Rightarrow> string \<Rightarrow> bool" where
  "startsWith s w = (take (length w) s = w)"

text \<open>A value used as a condition: an absent or empty string is falsy.\<close>

definition truthy :: "string option \<Rightarrow> bool" where
  "truthy v = (case v of None \<Rightarrow> False | Some s \<Rightarrow> s \<noteq> [])"

text \<open>
  A JavaScript \<^verbatim>\<open>Map\<close> keeps its entries in insertion order: \<^verbatim>\<open>set\<close> on a present key
  replaces the value in place, on an absent key it appends the entry.
\<close>

type_synonym ('k, 'v) js_map = "('k \<times> 'v) list"

definition map_get :: "('k, 'v) js_map \<Rightarrow> 'k \<Rightarrow> 'v option" where
  "map_get m k = map_of m k"

definition map_has :: "('k, 'v) js_map \<Rightarrow> 'k \<Rightarrow> bool" where
  "map_has m k = (map_of m k \<noteq> None)"

fun map_set :: "('k, 'v) js_map \<Rightarrow> 'k \<Rightarrow> 'v \<Rightarrow> ('k, 'v) js_map" where
  "map_set [] k v = [(k, v)]"
| "map_set (p # m) k v = (if fst p = k then (k, v) # m else p # map_set m k v)"

definition map_delete :: "('k, 'v) js_map \<Rightarrow> 'k \<Rightarrow> ('k, 'v) js_map" where
  "map_delete m k = filter (\<lambda>p. fst p \<noteq> k) m"

section \<open>The Telegram bridge: state, store and collaborators\<close>

text \<open>
  Source: \<^verbatim>\<open>TelegramBridge\<close> (src/unnamed/part_001) and \<^verbatim>\<open>EnhancedTelegramBridge\<close>
  (src/enhanced-bot/TelegramBridge.js). An Instagram thread id is a string, a Telegram
  topic id (\<^verbatim>\<open>message_thread_id\<close>) is an integer. A key of \<^verbatim>\<open>topicVerificationCache\<close> can be
  either, and a string key is never equal to a number key.
\<close>

datatype cache_key = KString string | KNumber int

text \<open>
  The documents of the MongoDB collection. \<^verbatim>\<open>updateOne\<close> with \<^verbatim>\<open>$set\<close> of \<^verbatim>\<open>type\<close> and
  \<^verbatim>\<open>data\<close> and \<^verbatim>\<open>upsert: true\<close> replaces the \<^verbatim>\<open>data\<close> of the first document that matches the
  filter, or inserts a new document when none matches. Dates are integers (milliseconds).
\<close>

record chat_doc =
  instagramThreadId :: string
  telegramTopicId :: int
  createdAt :: int
  lastActivity :: int
  profilePicUrl :: "string option"
  lastProfilePicUpdate :: "int option"

record user_info =
  username :: "string option"
  fullName :: "string option"
  firstSeen :: int
  messageCount :: nat
  lastSeen :: "int option"

datatype doc = Chat chat_doc | User string user_info | Filter string

fun upsert_chat :: "doc list \<Rightarrow> string \<Rightarrow> chat_doc \<Rightarrow> doc list" where
  "upsert_chat [] t d = [Chat d]"
| "upsert_chat (Chat c # ds) t d =
     (if instagramThreadId c = t then Chat d # ds else Chat c # upsert_chat ds t d)"
| "upsert_chat (x # ds) t d = x # upsert_chat ds t d"

fun upsert_user :: "doc list \<Rightarrow> string \<Rightarrow> user_info \<Rightarrow> doc list" where
  "upsert_user [] u d = [User u d]"
| "upsert_user (User u' d' # ds) u d =
     (if u' = u then User u d # ds else User u' d' # upsert_user ds u d)"
| "upsert_user (x # ds) u d = x # upsert_user ds u d"

fun delete_chat :: "doc list \<Rightarrow> string \<Rightarrow> doc list" where
  "delete_chat [] t = []"
| "delete_chat (Chat c # ds) t =
     (if instagramThreadId c = t then ds else Chat c # delete_chat ds t)"
| "delete_chat (x # ds) t = x # delete_chat ds t"

fun find_chat :: "doc list \<Rightarrow> string \<Rightarrow> chat_doc option" where
  "find_chat [] t = None"
| "find_chat (Chat c # ds) t = (if instagramThreadId c = t then Some c else find_chat ds t)"
| "find_chat (x # ds) t = find_chat ds t"

text \<open>
  A promise stored in \<^verbatim>\<open>creatingTopics\<close> is pending while its creation is in flight and
  afterwards holds the creation's result (a topic id, or \<^verbatim>\<open>null\<close>).
\<close>

datatype promise = Pending | Fulfilled "int option"

datatype temp_file = VoiceOgg int | VoiceM4a int | OtherFile string

text \<open>
  The fields of the bridge. \<open>telegramBot\<close> is \<open>None\<close> for \<^verbatim>\<open>null\<close> and otherwise says
  whether the bot is polling; \<open>tempDir\<close> is the content of the temporary directory;
  \<open>collection\<close> is \<open>None\<close> for \<^verbatim>\<open>null\<close>.
\<close>

record bridge =
  telegramBot :: "bool option"
  chatMappings :: "(string, int) js_map"
  userMappings :: "(string, user_info) js_map"
  profilePicCache :: "(string, string) js_map"
  tempDir :: "temp_file js_set"
  collection :: "doc list option"
  telegramChatId :: "string option"
  creatingTopics :: "(string, promise) js_map"
  topicVerificationCache :: "(cache_key, bool) js_map"
  enabled :: bool
  filters :: "string js_set"

text \<open>
  What the collaborators answer during one run of a handler: the clock, whether each
  database operation succeeds, what Telegram and Instagram answer. A handler is run
  alone, from its first statement to its last; a promise that is still pending when the
  handler awaits it resolves to \<open>awaited\<close>.
\<close>

datatype probe = ChatFound | ChatNotFound | ProbeFailed

datatype send_result = Sent int | ThreadNotFound | SendFailed

datatype ig_result = IgSent | IgFalsy | IgThrew

text \<open>
  The transcoder either finishes or fails; when it fails it may have left a partial
  output file (\<open>TranscodeFailed True\<close>).
\<close>

datatype transcode_result = TranscodeOk | TranscodeFailed bool

record env =
  now :: int
  db_user_ok :: bool
  db_chat_ok :: bool
  db_delete_ok :: bool
  create_topic :: "int option"
  user_pic :: "string option"
  welcome_enabled :: bool
  get_chat :: probe
  tg_send :: send_result
  ig_send :: ig_result
  ig_broadcast :: ig_result
  awaited :: "int option"
  stop_polling_ok :: bool
  empty_dir_ok :: bool
  now_later :: int
  download_ok :: bool
  transcode :: transcode_result
  voice_sent :: bool

text \<open>The calls a handler makes to Telegram and Instagram, in order.\<close>

datatype reaction = Unknown | Filtered | Success | Failure | Processing

datatype media_kind = Photo | Video | Document | Voice | Sticker

datatype effect =
    TgCreateTopic string
  | TgWelcome int
  | TgSendMessage int string
  | IgSendMessage string string
  | IgSendMedia string media_kind
  | SetReaction int reaction

section \<open>The mapping store\<close>

text \<open>
  \<^verbatim>\<open>saveUserMapping\<close> and \<^verbatim>\<open>saveChatMapping\<close> of part_001: nothing happens without a
  collection; a failing \<^verbatim>\<open>updateOne\<close> is logged and the in-memory maps stay as they are.
  \<^verbatim>\<open>saveChatMapping\<close> builds a fresh \<^verbatim>\<open>data\<close> object with \<^verbatim>\<open>createdAt\<close> and
  \<^verbatim>\<open>lastActivity\<close> set to \<^verbatim>\<open>new Date()\<close>, and at the end deletes the key
  \<^verbatim>\<open>instagramThreadId\<close> from \<^verbatim>\<open>topicVerificationCache\<close>.
\<close>

definition saveUserMapping :: "bridge \<Rightarrow> env \<Rightarrow> string \<Rightarrow> user_info \<Rightarrow> bridge" where
  "saveUserMapping b e uid u =
     (case collection b of
        None \<Rightarrow> b
      | Some docs \<Rightarrow>
          if \<not> db_user_ok e then b
          else b\<lparr>collection := Some (upsert_user docs uid (u\<lparr>lastSeen := Some (now e)\<rparr>)),
                 userMappings := map_set (userMappings b) uid u\<rparr>)"

definition new_chat_doc :: "env \<Rightarrow> string \<Rightarrow> int \<Rightarrow> string option \<Rightarrow> chat_doc" where
  "new_chat_doc e thread topic pic =
     \<lparr>instagramThreadId = thread, telegramTopicId = topic,
      createdAt = now e, lastActivity = now e,
      profilePicUrl = (if truthy pic then pic else None),
      lastProfilePicUpdate = None\<rparr>"

definition saveChatMapping :: "bridge \<Rightarrow> env \<Rightarrow> string \<Rightarrow> int \<Rightarrow> string option \<Rightarrow> bridge" where
  "saveChatMapping b e thread topic pic =
     (case collection b of
        None \<Rightarrow> b
      | Some docs \<Rightarrow>
          if \<not> db_chat_ok e then b
          else b\<lparr>collection := Some (upsert_chat docs thread (new_chat_doc e thread topic pic)),
                 chatMappings := map_set (chatMappings b) thread topic,
                 profilePicCache :=
                   (case pic of
                      None \<Rightarrow> profilePicCache b
                    | Some url \<Rightarrow>
                        if truthy pic then map_set (profilePicCache b) thread url
                        else profilePicCache b),
                 topicVerificationCache :=
                   map_delete (topicVerificationCache b) (KString thread)\<rparr>)"

text \<open>
  \<^verbatim>\<open>saveChatMapping\<close> of the enhanced bridge: the same, without the last statement on
  the verification cache.
\<close>

definition saveChatMapping_enhanced ::
  "bridge \<Rightarrow> env \<Rightarrow> string \<Rightarrow> int \<Rightarrow> string option \<Rightarrow> bridge" where
  "saveChatMapping_enhanced b e thread topic pic =
     (case collection b of
        None \<Rightarrow> b
      | Some docs \<Rightarrow>
          if \<not> db_chat_ok e then b
          else b\<lparr>collection := Some (upsert_chat docs thread (new_chat_doc e thread topic pic)),
                 chatMappings := map_set (chatMappings b) thread topic,
                 profilePicCache :=
                   (case pic of
                      None \<Rightarrow> profilePicCache b
                    | Some url \<Rightarrow>
                        if truthy pic then map_set (profilePicCache b) thread url
                        else profilePicCache b)\<rparr>)"

section \<open>The topic mapper, one call run alone\<close>

text \<open>
  \<^verbatim>\<open>getOrCreateTopic\<close> of part_001 when no other handler runs between its statements.
  The cached mapping is returned at once. A promise found in \<^verbatim>\<open>creatingTopics\<close> is
  awaited. Otherwise the creation runs: without a chat id it returns \<^verbatim>\<open>null\<close> before the
  \<^verbatim>\<open>try\<close>, so that its \<^verbatim>\<open>finally\<close> does not run and the promise, stored afterwards, stays in
  \<^verbatim>\<open>creatingTopics\<close>; with a chat id the topic name is chosen, a missing user mapping is
  saved, the topic is created, the profile picture is fetched, the mapping is saved and
  the welcome message is sent, and \<^verbatim>\<open>finally\<close> removes the promise that was stored at
  the first \<^verbatim>\<open>await\<close>. The profile picture that the welcome message may send is not
  modelled.
\<close>

definition topic_name :: "bridge \<Rightarrow> string \<Rightarrow> string option \<Rightarrow> string" where
  "topic_name b thread sender =
     (case sender of
        None \<Rightarrow> ''Instagram Chat '' @ take 10 thread @ ''...''
      | Some uid \<Rightarrow>
          (case map_get (userMappings b) uid of
             Some u \<Rightarrow>
               ''@'' @ (if truthy (username u) then the (username u)
                        else if truthy (fullName u) then the (fullName u)
                        else uid)
           | None \<Rightarrow>
               if uid = [] then ''Instagram Chat '' @ take 10 thread @ ''...''
               else ''User '' @ uid))"

definition basic_user :: "env \<Rightarrow> user_info" where
  "basic_user e =
     \<lparr>username = None, fullName = None, firstSeen = now e, messageCount = 0, lastSeen = None\<rparr>"

definition getOrCreateTopic ::
  "bridge \<Rightarrow> env \<Rightarrow> string \<Rightarrow> string option \<Rightarrow> int option \<times> bridge \<times> effect list" where
  "getOrCreateTopic b e thread sender =
     (case map_get (chatMappings b) thread of
        Some t \<Rightarrow> (Some t, b, [])
      | None \<Rightarrow>
          (case map_get (creatingTopics b) thread of
             Some (Fulfilled r) \<Rightarrow> (r, b, [])
           | Some Pending \<Rightarrow> (awaited e, b, [])
           | None \<Rightarrow>
               (case telegramChatId b of
                  None \<Rightarrow>
                    (None,
                     b\<lparr>creatingTopics := map_set (creatingTopics b) thread (Fulfilled None)\<rparr>,
                     [])
                | Some chat \<Rightarrow>
                    let name = topic_name b thread sender;
                        b1 = (case sender of
                                None \<Rightarrow> b
                              | Some uid \<Rightarrow>
                                  if map_get (userMappings b) uid = None \<and> uid \<noteq> []
                                  then saveUserMapping b e uid (basic_user e) else b)
                    in (case create_topic e of
                          None \<Rightarrow> (None, b1, [TgCreateTopic name])
                        | Some t \<Rightarrow>
                            let pic = (if truthy sender then user_pic e else None);
                                b2 = saveChatMapping b1 e thread t pic
                            in (Some t, b2,
                                TgCreateTopic name #
                                  (if welcome_enabled e then [TgWelcome t] else []))))))"

section \<open>The forward pipeline\<close>

text \<open>
  \<^verbatim>\<open>verifyTopicExists\<close>: the cached answer for the topic id if there is one; otherwise
  \<^verbatim>\<open>getChat\<close> is asked, a positive answer and a "not found" answer are cached, and any
  other failure counts as "exists" without being cached.
\<close>

definition verifyTopicExists :: "bridge \<Rightarrow> env \<Rightarrow> int \<Rightarrow> bool \<times> bridge" where
  "verifyTopicExists b e topic =
     (case map_get (topicVerificationCache b) (KNumber topic) of
        Some v \<Rightarrow> (v, b)
      | None \<Rightarrow>
          (case get_chat e of
             ChatFound \<Rightarrow>
               (True, b\<lparr>topicVerificationCache :=
                          map_set (topicVerificationCache b) (KNumber topic) True\<rparr>)
           | ChatNotFound \<Rightarrow>
               (False, b\<lparr>topicVerificationCache :=
                           map_set (topicVerificationCache b) (KNumber topic) False\<rparr>)
           | ProbeFailed \<Rightarrow> (True, b)))"

text \<open>
  The three statements that forget a mapping: the in-memory entry, the cached picture,
  the stored document. Without a collection, or when \<^verbatim>\<open>deleteOne\<close> fails, the first two
  have already happened.
\<close>

definition forget_mapping :: "bridge \<Rightarrow> env \<Rightarrow> string \<Rightarrow> bridge" where
  "forget_mapping b e thread =
     (let b1 = b\<lparr>chatMappings := map_delete (chatMappings b) thread,
                  profilePicCache := map_delete (profilePicCache b) thread\<rparr>
      in case collection b1 of
           None \<Rightarrow> b1
         | Some docs \<Rightarrow>
             if db_delete_ok e then b1\<lparr>collection := Some (delete_chat docs thread)\<rparr> else b1)"

text \<open>
  \<^verbatim>\<open>sendSimpleMessage\<close> of part_001. The result is the id of the sent message or
  \<^verbatim>\<open>null\<close>. The effect \<open>TgSendMessage\<close> is the call of \<^verbatim>\<open>telegramBot.sendMessage\<close> with the
  topic and the text. When \<^verbatim>\<open>deleteOne\<close> fails inside the \<^verbatim>\<open>catch\<close> block the source throws
  instead of returning \<^verbatim>\<open>null\<close>; its only caller ignores the result and catches the
  exception, so the model returns \<^verbatim>\<open>null\<close> there as well.
\<close>

definition sendSimpleMessage ::
  "bridge \<Rightarrow> env \<Rightarrow> int \<Rightarrow> string \<Rightarrow> string \<Rightarrow> int option \<times> bridge \<times> effect list" where
  "sendSimpleMessage b e topic text thread =
     (case verifyTopicExists b e topic of
        (False, b1) \<Rightarrow> (None, forget_mapping b1 e thread, [])
      | (True, b1) \<Rightarrow>
          (case tg_send e of
             Sent mid \<Rightarrow> (Some mid, b1, [TgSendMessage topic text])
           | ThreadNotFound \<Rightarrow> (None, forget_mapping b1 e thread, [TgSendMessage topic text])
           | SendFailed \<Rightarrow> (None, b1, [TgSendMessage topic text])))"

text \<open>
  \<^verbatim>\<open>sendSimpleMessage\<close> of the enhanced bridge sends without any verification.
\<close>

definition sendSimpleMessage_enhanced ::
  "bridge \<Rightarrow> env \<Rightarrow> int \<Rightarrow> string \<Rightarrow> string \<Rightarrow> int option \<times> bridge \<times> effect list" where
  "sendSimpleMessage_enhanced b e topic text thread =
     (case tg_send e of
        Sent mid \<Rightarrow> (Some mid, b, [TgSendMessage topic text])
      | ThreadNotFound \<Rightarrow> (None, b, [TgSendMessage topic text])
      | SendFailed \<Rightarrow> (None, b, [TgSendMessage topic text]))"

text \<open>
  The message that the Instagram bot hands to its handlers (\<^verbatim>\<open>handleMessage\<close> of
  part_000 builds it; \<^verbatim>\<open>text\<close> is always a string there). \<open>im_senderId\<close> is the sender id
  as \<^verbatim>\<open>toString()\<close> prints it, \<open>None\<close> when the id is \<^verbatim>\<open>undefined\<close> or \<^verbatim>\<open>null\<close>.
\<close>

record ig_message =
  im_threadId :: string
  im_senderId :: "string option"
  im_senderUsername :: string
  im_text :: string
  im_type :: string

definition blocked_by :: "string js_set \<Rightarrow> string \<Rightarrow> string option" where
  "blocked_by words textLower = find (\<lambda>word. startsWith textLower word) words"

definition count_sender :: "bridge \<Rightarrow> env \<Rightarrow> ig_message \<Rightarrow> string \<Rightarrow> bridge" where
  "count_sender b e m uid =
     (case map_get (userMappings b) uid of
        None \<Rightarrow>
          saveUserMapping b e uid
            \<lparr>username = Some (im_senderUsername m), fullName = None, firstSeen = now e,
             messageCount = 0, lastSeen = None\<rparr>
      | Some u \<Rightarrow>
          let u' = u\<lparr>messageCount := messageCount u + 1, lastSeen := Some (now e)\<rparr>
          in saveUserMapping (b\<lparr>userMappings := map_set (userMappings b) uid u'\<rparr>) e uid u')"

text \<open>
  \<^verbatim>\<open>sendToTelegram\<close> of part_001: the guard, the user mapping, the topic, the filter and
  the dispatch on the message type. A sender id that is \<^verbatim>\<open>undefined\<close> makes
  \<^verbatim>\<open>toString()\<close> throw, which the handler catches. A topic id that is \<^verbatim>\<open>null\<close> or \<open>0\<close> is
  falsy. \<^verbatim>\<open>handleInstagramMedia\<close> only writes to the log.
\<close>

definition sendToTelegram ::
  "js_runtime \<Rightarrow> bridge \<Rightarrow> env \<Rightarrow> ig_message \<Rightarrow> bridge \<times> effect list" where
  "sendToTelegram rt b e m =
     (if telegramBot b = None \<or> \<not> enabled b then (b, [])
      else
        (case im_senderId m of
           None \<Rightarrow> (b, [])
         | Some uid \<Rightarrow>
             let b1 = count_sender b e m uid
             in (case getOrCreateTopic b1 e (im_threadId m) (im_senderId m) of
                   (None, b2, fx) \<Rightarrow> (b2, fx)
                 | (Some topic, b2, fx) \<Rightarrow>
                     if topic = 0 then (b2, fx)
                     else
                       (case blocked_by (filters b2) (trim rt (toLowerCase rt (im_text m))) of
                          Some word \<Rightarrow> (b2, fx)
                        | None \<Rightarrow>
                            if im_type m = ''text'' then
                              (case sendSimpleMessage b2 e topic (im_text m) (im_threadId m) of
                                 (r, b3, fx') \<Rightarrow> (b3, fx @ fx'))
                            else if im_type m \<in> set [''media'', ''photo'', ''video'', ''clip'']
                            then (b2, fx)
                            else
                              (case sendSimpleMessage b2 e topic
                                      (''[Unsupported Message Type: '' @ im_type m @ '']'' @
                                         (if im_text m \<noteq> [] then CHR 0x0A # im_text m else []))
                                      (im_threadId m) of
                                 (r, b3, fx') \<Rightarrow> (b3, fx @ fx'))))))"

text \<open>
  \<^verbatim>\<open>sendToTelegram\<close> of the enhanced bridge: no user mapping, no filter; media is sent
  as a line of text by \<^verbatim>\<open>handleInstagramMedia\<close>, whose text depends on the raw message
  and is the parameter \<open>media_text\<close>.
\<close>

definition getOrCreateTopic_enhanced ::
  "bridge \<Rightarrow> env \<Rightarrow> string \<Rightarrow> string option \<Rightarrow> int option \<times> bridge \<times> effect list" where
  "getOrCreateTopic_enhanced b e thread sender =
     (case map_get (chatMappings b) thread of
        Some t \<Rightarrow> (Some t, b, [])
      | None \<Rightarrow>
          (case map_get (creatingTopics b) thread of
             Some (Fulfilled r) \<Rightarrow> (r, b, [])
           | Some Pending \<Rightarrow> (awaited e, b, [])
           | None \<Rightarrow>
               let name = topic_name b thread sender
               in (case create_topic e of
                     None \<Rightarrow> (None, b, [TgCreateTopic name])
                   | Some t \<Rightarrow>
                       (Some t, saveChatMapping_enhanced b e thread t None,
                        TgCreateTopic name #
                          (if welcome_enabled e then [TgWelcome t] else [])))))"

definition sendToTelegram_enhanced ::
  "js_runtime \<Rightarrow> bridge \<Rightarrow> env \<Rightarrow> string \<Rightarrow> ig_message \<Rightarrow> bridge \<times> effect list" where
  "sendToTelegram_enhanced rt b e media_text m =
     (if telegramBot b = None \<or> \<not> enabled b then (b, [])
      else
        (case getOrCreateTopic_enhanced b e (im_threadId m) (im_senderId m) of
           (None, b2, fx) \<Rightarrow> (b2, fx)
         | (Some topic, b2, fx) \<Rightarrow>
             if topic = 0 then (b2, fx)
             else if im_type m = ''text'' then
               (case sendSimpleMessage_enhanced b2 e topic (im_text m) (im_threadId m) of
                  (r, b3, fx') \<Rightarrow> (b3, fx @ fx'))
             else if im_type m \<in> set [''media'', ''photo'', ''video''] then
               (case sendSimpleMessage_enhanced b2 e topic media_text (im_threadId m) of
                  (r, b3, fx') \<Rightarrow> (b3, fx @ fx'))
             else
               (case sendSimpleMessage_enhanced b2 e topic
                       (''['' @ toUpperCase rt (im_type m) @ ''] '' @
                          (if im_text m \<noteq> [] then im_text m else ''Unsupported message type''))
                       (im_threadId m) of
                  (r, b3, fx') \<Rightarrow> (b3, fx @ fx'))))"

section \<open>The reverse pipeline\<close>

text \<open>
  A Telegram message of a topic: its text, if it has one, or the kind of its media.
\<close>

record tg_message =
  tm_chat_id :: int
  tm_message_id :: int
  tm_thread_id :: int
  tm_text :: "string option"
  tm_media :: "media_kind option"

text \<open>
  The fields that \<^verbatim>\<open>handleTelegramMedia\<close> of part_001 reads in addition: the caption, the
  file name of a document, and the size of a document in KB as \<^verbatim>\<open>toFixed(2)\<close> prints it.
\<close>

record tg_media_message = tg_message +
  tm_caption :: "string option"
  tm_file_name :: "string option"
  tm_file_size_kb :: string

definition findInstagramThreadIdByTopic :: "bridge \<Rightarrow> int \<Rightarrow> string option" where
  "findInstagramThreadIdByTopic b topic =
     map_option fst (find (\<lambda>p. snd p = topic) (chatMappings b))"

text \<open>
  \<^verbatim>\<open>sendMessage\<close> of the Instagram bot (part_000, and the old bot): it throws when the
  thread id or the text is empty, and otherwise sends the text as it is.
\<close>

definition instagram_sendMessage :: "env \<Rightarrow> string \<Rightarrow> string \<Rightarrow> ig_result \<times> effect list" where
  "instagram_sendMessage e thread text =
     (if thread = [] \<or> text = [] then (IgThrew, [])
      else (ig_send e, [IgSendMessage thread text]))"

text \<open>
  \<^verbatim>\<open>handleTelegramMedia\<close> of part_001. After the processing reaction the file is
  downloaded (\<^verbatim>\<open>getFileLink\<close> and \<^verbatim>\<open>axios.get\<close>, one step that succeeds or throws). A photo
  and a video are broadcast, and a caption that is not empty follows as a text message of
  its own, whose result is ignored unless it throws. A voice note is broadcast. A document
  is sent as a line of text, the file information and the caption; a sticker is sent as a
  fixed line of text. The reaction is the success one when the result of the broadcast
  (of the text message, for a document and a sticker) is truthy, and the failure one
  otherwise and on every exception. The effect \<open>IgSendMedia\<close> is the call of
  \<^verbatim>\<open>broadcastPhoto\<close>, \<^verbatim>\<open>broadcastVideo\<close> or \<^verbatim>\<open>broadcastVoice\<close>.
\<close>

definition fileInfo :: "tg_media_message \<Rightarrow> string" where
  "fileInfo msg =
     [CHR 0xF0, CHR 0x9F, CHR 0x93, CHR 0x8E] @ '' Document: '' @
       (if truthy (tm_file_name msg) then the (tm_file_name msg) else ''Unnamed File'') @
       '' ('' @ tm_file_size_kb msg @ '' KB)''"

definition broadcast_then_caption ::
  "env \<Rightarrow> string \<Rightarrow> media_kind \<Rightarrow> string \<Rightarrow> ig_result \<times> effect list" where
  "broadcast_then_caption e thread kind caption =
     (case ig_broadcast e of
        IgThrew \<Rightarrow> (IgThrew, [IgSendMedia thread kind])
      | r \<Rightarrow>
          if caption = [] then (r, [IgSendMedia thread kind])
          else
            (case instagram_sendMessage e thread caption of
               (IgThrew, fx) \<Rightarrow> (IgThrew, IgSendMedia thread kind # fx)
             | (r', fx) \<Rightarrow> (r, IgSendMedia thread kind # fx)))"

definition handleTelegramMedia ::
  "env \<Rightarrow> tg_media_message \<Rightarrow> media_kind \<Rightarrow> string \<Rightarrow> effect list" where
  "handleTelegramMedia e msg kind thread =
     SetReaction (tm_message_id msg) Processing #
       (if \<not> download_ok e then [SetReaction (tm_message_id msg) Failure]
        else
          let caption = (case tm_caption msg of None \<Rightarrow> [] | Some c \<Rightarrow> c)
          in (case (case kind of
                      Photo \<Rightarrow> broadcast_then_caption e thread Photo caption
                    | Video \<Rightarrow> broadcast_then_caption e thread Video caption
                    | Document \<Rightarrow>
                        instagram_sendMessage e thread (fileInfo msg @ CHR 0x0A # caption)
                    | Voice \<Rightarrow> (ig_broadcast e, [IgSendMedia thread Voice])
                    | Sticker \<Rightarrow>
                        instagram_sendMessage e thread
                          ''[Sticker Received - Conversion Needed]'') of
                (IgSent, fx) \<Rightarrow> fx @ [SetReaction (tm_message_id msg) Success]
              | (r, fx) \<Rightarrow> fx @ [SetReaction (tm_message_id msg) Failure]))"

text \<open>
  \<^verbatim>\<open>handleTelegramMessage\<close> of part_001: the reverse lookup, the filter on the trimmed
  and lower-cased text, then the dispatch. \<open>originalText\<close> is \<^verbatim>\<open>msg.text?.trim() || ''\<close>, and
  it is the text that is sent.
\<close>

definition originalText :: "js_runtime \<Rightarrow> tg_media_message \<Rightarrow> string" where
  "originalText rt msg = (case tm_text msg of None \<Rightarrow> [] | Some t \<Rightarrow> trim rt t)"

definition handleTelegramMessage ::
  "js_runtime \<Rightarrow> bridge \<Rightarrow> env \<Rightarrow> tg_media_message \<Rightarrow> effect list" where
  "handleTelegramMessage rt b e msg =
     (case findInstagramThreadIdByTopic b (tm_thread_id msg) of
        None \<Rightarrow> [SetReaction (tm_message_id msg) Unknown]
      | Some thread \<Rightarrow>
          if thread = [] then [SetReaction (tm_message_id msg) Unknown]
          else
            let textLower = toLowerCase rt (originalText rt msg)
            in (case blocked_by (filters b) textLower of
                  Some word \<Rightarrow> [SetReaction (tm_message_id msg) Filtered]
                | None \<Rightarrow>
                    if truthy (tm_text msg) then
                      (case instagram_sendMessage e thread (originalText rt msg) of
                         (IgSent, fx) \<Rightarrow> fx @ [SetReaction (tm_message_id msg) Success]
                       | (IgFalsy, fx) \<Rightarrow> fx @ [SetReaction (tm_message_id msg) Failure]
                       | (IgThrew, fx) \<Rightarrow> fx @ [SetReaction (tm_message_id msg) Failure])
                    else
                      (case tm_media msg of
                         Some kind \<Rightarrow> handleTelegramMedia e msg kind thread
                       | None \<Rightarrow>
                           (case instagram_sendMessage e thread
                                   ''[Unsupported Telegram Media Received]'' of
                              (IgSent, fx) \<Rightarrow> fx @ [SetReaction (tm_message_id msg) Success]
                            | (IgFalsy, fx) \<Rightarrow> fx @ [SetReaction (tm_message_id msg) Failure]
                            | (IgThrew, fx) \<Rightarrow> fx @ [SetReaction (tm_message_id msg) Failure]))))"

text \<open>
  \<^verbatim>\<open>handleTelegramText\<close> of the enhanced bridge: the trimmed text is sent, and the
  reaction follows whether the call threw.
\<close>

definition handleTelegramText :: "js_runtime \<Rightarrow> env \<Rightarrow> tg_message \<Rightarrow> string \<Rightarrow> effect list" where
  "handleTelegramText rt e msg thread =
     (case instagram_sendMessage e thread
             (case tm_text msg of None \<Rightarrow> [] | Some t \<Rightarrow> trim rt t) of
        (IgThrew, fx) \<Rightarrow> fx @ [SetReaction (tm_message_id msg) Failure]
      | (r, fx) \<Rightarrow> fx @ [SetReaction (tm_message_id msg) Success])"

section \<open>Voice conversion\<close>

text \<open>
  \<^verbatim>\<open>handleTelegramVoice\<close> of the enhanced bridge. The downloaded voice note is written
  to the temporary directory, the transcoder writes the converted file next to it, the
  converted file is sent, and the two files are unlinked after the send. Every failure
  on the way goes to the \<^verbatim>\<open>catch\<close> block, which logs and sets the failure reaction.
  \<^verbatim>\<open>sendVoiceMessage\<close> of the Instagram bot removes the temporary copy it makes itself in
  a \<^verbatim>\<open>finally\<close> block, so that it leaves the directory as it found it.
\<close>

definition handleTelegramVoice ::
  "bridge \<Rightarrow> env \<Rightarrow> tg_message \<Rightarrow> string \<Rightarrow> bridge \<times> effect list" where
  "handleTelegramVoice b e msg thread =
     (if \<not> download_ok e
      then (b, [SetReaction (tm_message_id msg) Processing,
                SetReaction (tm_message_id msg) Failure])
      else
        let originalPath = VoiceOgg (now e);
            b1 = b\<lparr>tempDir := set_add (tempDir b) originalPath\<rparr>;
            convertedPath = VoiceM4a (now_later e)
        in (case transcode e of
              TranscodeFailed partial \<Rightarrow>
                (b1\<lparr>tempDir := (if partial then set_add (tempDir b1) convertedPath
                                 else tempDir b1)\<rparr>,
                 [SetReaction (tm_message_id msg) Processing,
                  SetReaction (tm_message_id msg) Failure])
            | TranscodeOk \<Rightarrow>
                let b2 = b1\<lparr>tempDir := set_add (tempDir b1) convertedPath\<rparr>
                in if \<not> voice_sent e
                   then (b2, [SetReaction (tm_message_id msg) Processing,
                              IgSendMedia thread Voice,
                              SetReaction (tm_message_id msg) Failure])
                   else (b2\<lparr>tempDir :=
                              set_delete (set_delete (tempDir b2) originalPath) convertedPath\<rparr>,
                         [SetReaction (tm_message_id msg) Processing,
                          IgSendMedia thread Voice,
                          SetReaction (tm_message_id msg) Success])))"

section \<open>Shutdown\<close>

text \<open>
  \<^verbatim>\<open>shutdown\<close>, the same in both bridges: polling is stopped if there is a bot, the
  temporary directory is emptied, and a failure of either is logged and ignored.
\<close>

definition shutdown :: "bridge \<Rightarrow> env \<Rightarrow> bridge" where
  "shutdown b e =
     (let b1 = (case telegramBot b of
                  None \<Rightarrow> b
                | Some polling \<Rightarrow>
                    if stop_polling_ok e then b\<lparr>telegramBot := Some False\<rparr> else b)
      in if empty_dir_ok e then b1\<lparr>tempDir := []\<rparr> else b1)"

definition in_flight :: "bridge \<Rightarrow> string list" where
  "in_flight b = map fst (filter (\<lambda>p. snd p = Pending) (creatingTopics b))"

section \<open>Construction and initialisation of the bridge\<close>

text \<open>
  The constructor leaves every map empty, the bot and the collection \<^verbatim>\<open>null\<close> and the
  bridge disabled. \<^verbatim>\<open>initialize\<close> stores the configured chat id, gives up when the token
  or the chat id is missing, and otherwise connects the database, creates the polling
  bot, loads the mappings and the filters from the collection and enables the bridge;
  when the database cannot be reached the bridge stays disabled. The placeholder tests
  on the token and the chat id are left out.
\<close>

definition bridge_constructor :: bridge where
  "bridge_constructor =
     \<lparr>telegramBot = None, chatMappings = [], userMappings = [], profilePicCache = [],
      tempDir = [], collection = None, telegramChatId = None, creatingTopics = [],
      topicVerificationCache = [], enabled = False, filters = []\<rparr>"

fun loadMappingsFromDb :: "bridge \<Rightarrow> doc list \<Rightarrow> bridge" where
  "loadMappingsFromDb b [] = b"
| "loadMappingsFromDb b (Chat c # ds) =
     loadMappingsFromDb
       (b\<lparr>chatMappings := map_set (chatMappings b) (instagramThreadId c) (telegramTopicId c),
          profilePicCache :=
            (case profilePicUrl c of
               None \<Rightarrow> profilePicCache b
             | Some url \<Rightarrow>
                 if url = [] then profilePicCache b
                 else map_set (profilePicCache b) (instagramThreadId c) url)\<rparr>) ds"
| "loadMappingsFromDb b (User uid u # ds) =
     loadMappingsFromDb (b\<lparr>userMappings := map_set (userMappings b) uid (u\<lparr>lastSeen := None\<rparr>)\<rparr>) ds"
| "loadMappingsFromDb b (Filter w # ds) = loadMappingsFromDb b ds"

fun loadFiltersFromDb :: "string js_set \<Rightarrow> doc list \<Rightarrow> string js_set" where
  "loadFiltersFromDb ws [] = ws"
| "loadFiltersFromDb ws (Filter w # ds) = loadFiltersFromDb (set_add ws w) ds"
| "loadFiltersFromDb ws (x # ds) = loadFiltersFromDb ws ds"

definition initialize :: "bridge \<Rightarrow> string option \<Rightarrow> string option \<Rightarrow> doc list option \<Rightarrow> bridge" where
  "initialize b token chatId db =
     (let b1 = b\<lparr>telegramChatId := chatId\<rparr>
      in if \<not> truthy token \<or> \<not> truthy chatId then b1
         else
           (case db of
              None \<Rightarrow> b1\<lparr>enabled := False\<rparr>
            | Some docs \<Rightarrow>
                (loadMappingsFromDb (b1\<lparr>collection := Some docs, telegramBot := Some True\<rparr>) docs)
                  \<lparr>filters := loadFiltersFromDb [] docs, enabled := True\<rparr>))"

text \<open>
  Two values used in the examples: the bridge after a successful \<^verbatim>\<open>initialize\<close> on the
  documents \<open>docs\<close>, and collaborators that all succeed at time \<open>t\<close>, Telegram creating
  the topic \<open>topic\<close>.
\<close>

definition started :: "doc list \<Rightarrow> bridge" where
  "started docs = initialize bridge_constructor (Some ''token'') (Some ''-100'') (Some docs)"

definition all_ok :: "int \<Rightarrow> int \<Rightarrow> env" where
  "all_ok t topic =
     \<lparr>now = t, db_user_ok = True, db_chat_ok = True, db_delete_ok = True,
      create_topic = Some topic, user_pic = None, welcome_enabled = True,
      get_chat = ChatFound, tg_send = Sent 1, ig_send = IgSent, ig_broadcast = IgSent,
      awaited = None, stop_polling_ok = True, empty_dir_ok = True,
      now_later = t + 1, download_ok = True, transcode = TranscodeOk, voice_sent = True\<rparr>"

text \<open>The stored document of a thread, as \<^verbatim>\<open>findOne\<close> would return it.\<close>

definition stored_chat :: "bridge \<Rightarrow> string \<Rightarrow> chat_doc option" where
  "stored_chat b t = (case collection b of None \<Rightarrow> None | Some docs \<Rightarrow> find_chat docs t)"

section \<open>Reading the calls of a handler\<close>



fun tg_sends :: "effect list \<Rightarrow> (int \<times> string) list" where
  "tg_sends [] = []"
| "tg_sends (TgSendMessage topic text # fx) = (topic, text) # tg_sends fx"
| "tg_sends (x # fx) = tg_sends fx"

fun ig_sends :: "effect list \<Rightarrow> (string \<times> string) list" where
  "ig_sends [] = []"
| "ig_sends (IgSendMessage thread text # fx) = (thread, text) # ig_sends fx"
| "ig_sends (x # fx) = ig_sends fx"

section \<open>The topic mapper under interleaving\<close>

text \<open>
  JavaScript runs one handler at a time and switches to another only at an \<^verbatim>\<open>await\<close>.
  The steps below are the stretches of \<^verbatim>\<open>getOrCreateTopic\<close> between two awaits that read
  or write \<^verbatim>\<open>chatMappings\<close> or \<^verbatim>\<open>creatingTopics\<close>; any number of calls and creations may
  be under way, and their steps may come in any order.

  \<^item> \<open>Call t\<close>: a handler calls \<^verbatim>\<open>getOrCreateTopic(t, ...)\<close>. Up to its first \<^verbatim>\<open>await\<close> the
    call runs alone: it returns the cached topic; or it finds a promise in
    \<^verbatim>\<open>creatingTopics\<close> and awaits it; or it starts the creation, which runs up to its own
    first \<^verbatim>\<open>await\<close> (of \<^verbatim>\<open>saveUserMapping\<close> or of \<^verbatim>\<open>createForumTopic\<close>), stores the promise
    under \<open>t\<close> and awaits it. In part_001 a creation without a chat id returns \<^verbatim>\<open>null\<close>
    before its \<^verbatim>\<open>try\<close>, so the promise that is stored is already settled and no
    \<^verbatim>\<open>finally\<close> ever removes it.
  \<^item> \<open>TopicCreated p r\<close>: \<^verbatim>\<open>createForumTopic\<close> of creation \<open>p\<close> settles. When it has failed
    (\<open>r = None\<close>) the \<^verbatim>\<open>catch\<close> returns \<^verbatim>\<open>null\<close> and \<^verbatim>\<open>finally\<close> deletes the entry of the
    thread.
  \<^item> \<open>ChatSaved p ok\<close>: \<^verbatim>\<open>updateOne\<close> in \<^verbatim>\<open>saveChatMapping\<close> settles; \<^verbatim>\<open>chatMappings.set\<close>
    runs when there is a collection and the update succeeded (\<open>ok\<close>).
  \<^item> \<open>Finished p\<close>: the creation returns its topic id and \<^verbatim>\<open>finally\<close> deletes the entry
    of the thread.
  \<^item> \<open>Forget t\<close>: \<^verbatim>\<open>sendSimpleMessage\<close>, in some other handler, deletes the mapping of \<open>t\<close>.

  The awaits of a creation that touch neither map (the user mapping, the profile
  picture, the welcome message) are not steps of their own. A thread id is a string and
  the bot exists, so that nothing inside the \<^verbatim>\<open>try\<close> throws before the first \<^verbatim>\<open>await\<close>. A
  promise is the index of its creation in \<open>creations\<close>. A step whose creation is not in
  the phase it needs does nothing.

  The fields \<open>chatMappings_mp\<close> and \<open>creatingTopics_mp\<close> are \<^verbatim>\<open>chatMappings\<close> and
  \<^verbatim>\<open>creatingTopics\<close>. Each call is recorded with its outcome and, for the statement of
  single-flight only, with the creations of its thread that were in flight when it was
  made, the one it started included (\<open>c_flights\<close>).
\<close>

datatype phase = Creating | Created int | Saved int | Settled "int option"

record creation =
  cr_thread :: string
  cr_phase :: phase

datatype outcome = Cached int | Awaiting nat

record call =
  c_thread :: string
  c_outcome :: outcome
  c_flights :: "nat list"

record mapper =
  chatMappings_mp :: "(string, int) js_map"
  creatingTopics_mp :: "(string, nat) js_map"
  creations :: "creation list"
  calls :: "call list"
  chat_id_missing :: bool

datatype event =
    Call string
  | TopicCreated nat "int option"
  | ChatSaved nat bool
  | Finished nat
  | Forget string

definition mapper_init :: "(string, int) js_map \<Rightarrow> bool \<Rightarrow> mapper" where
  "mapper_init loaded missing =
     \<lparr>chatMappings_mp = loaded, creatingTopics_mp = [], creations = [], calls = [], chat_id_missing = missing\<rparr>"

definition phase_of :: "mapper \<Rightarrow> nat \<Rightarrow> phase option" where
  "phase_of s p = (if p < length (creations s) then Some (cr_phase (creations s ! p)) else None)"

fun settled :: "phase \<Rightarrow> bool" where
  "settled (Settled r) = True"
| "settled ph = False"

definition in_flight_for :: "mapper \<Rightarrow> string \<Rightarrow> nat \<Rightarrow> bool" where
  "in_flight_for s t p =
     (p < length (creations s) \<and> cr_thread (creations s ! p) = t \<and>
      \<not> settled (cr_phase (creations s ! p)))"

definition flights :: "mapper \<Rightarrow> string \<Rightarrow> nat list" where
  "flights s t = filter (in_flight_for s t) [0..<length (creations s)]"

definition set_phase :: "mapper \<Rightarrow> nat \<Rightarrow> phase \<Rightarrow> mapper" where
  "set_phase s p ph = s\<lparr>creations := (creations s)[p := (creations s ! p)\<lparr>cr_phase := ph\<rparr>]\<rparr>"

definition call_step :: "mapper \<Rightarrow> string \<Rightarrow> mapper" where
  "call_step s t =
     (case map_get (chatMappings_mp s) t of
        Some topic \<Rightarrow>
          s\<lparr>calls := calls s @
               [\<lparr>c_thread = t, c_outcome = Cached topic, c_flights = flights s t\<rparr>]\<rparr>
      | None \<Rightarrow>
          (case map_get (creatingTopics_mp s) t of
             Some p \<Rightarrow>
               s\<lparr>calls := calls s @
                    [\<lparr>c_thread = t, c_outcome = Awaiting p, c_flights = flights s t\<rparr>]\<rparr>
           | None \<Rightarrow>
               let p = length (creations s)
               in if chat_id_missing s
                  then s\<lparr>creations := creations s @ [\<lparr>cr_thread = t, cr_phase = Settled None\<rparr>],
                         creatingTopics_mp := map_set (creatingTopics_mp s) t p,
                         calls := calls s @
                           [\<lparr>c_thread = t, c_outcome = Awaiting p, c_flights = flights s t\<rparr>]\<rparr>
                  else s\<lparr>creations := creations s @ [\<lparr>cr_thread = t, cr_phase = Creating\<rparr>],
                         creatingTopics_mp := map_set (creatingTopics_mp s) t p,
                         calls := calls s @
                           [\<lparr>c_thread = t, c_outcome = Awaiting p,
                             c_flights = flights s t @ [p]\<rparr>]\<rparr>))"

definition step :: "mapper \<Rightarrow> event \<Rightarrow> mapper" where
  "step s ev =
     (case ev of
        Call t \<Rightarrow> call_step s t
      | TopicCreated p r \<Rightarrow>
          (case phase_of s p of
             Some Creating \<Rightarrow>
               (case r of
                  Some topic \<Rightarrow> set_phase s p (Created topic)
                | None \<Rightarrow>
                    (set_phase s p (Settled None))
                      \<lparr>creatingTopics_mp := map_delete (creatingTopics_mp s) (cr_thread (creations s ! p))\<rparr>)
           | _ \<Rightarrow> s)
      | ChatSaved p ok \<Rightarrow>
          (case phase_of s p of
             Some (Created topic) \<Rightarrow>
               (set_phase s p (Saved topic))
                 \<lparr>chatMappings_mp := (if ok then map_set (chatMappings_mp s) (cr_thread (creations s ! p)) topic
                               else chatMappings_mp s)\<rparr>
           | _ \<Rightarrow> s)
      | Finished p \<Rightarrow>
          (case phase_of s p of
             Some (Saved topic) \<Rightarrow>
               (set_phase s p (Settled (Some topic)))
                 \<lparr>creatingTopics_mp := map_delete (creatingTopics_mp s) (cr_thread (creations s ! p))\<rparr>
           | _ \<Rightarrow> s)
      | Forget t \<Rightarrow> s\<lparr>chatMappings_mp := map_delete (chatMappings_mp s) t\<rparr>)"

definition run :: "mapper \<Rightarrow> event list \<Rightarrow> mapper" where
  "run s evs = foldl step s evs"

definition call_result :: "mapper \<Rightarrow> call \<Rightarrow> int option option" where
  "call_result s c =
     (case c_outcome c of
        Cached topic \<Rightarrow> Some (Some topic)
      | Awaiting p \<Rightarrow>
          (case phase_of s p of Some (Settled r) \<Rightarrow> Some r | _ \<Rightarrow> None))"

text \<open>
  The invariant of the mapper: a creation in flight is the one that \<^verbatim>\<open>creatingTopics\<close>
  holds for its thread; while it is in flight the cached mapping of its thread is absent
  or is the topic that the creation has saved; and every recorded call is served by the
  creations in flight at its time, by awaiting them or by reading the topic they saved.
\<close>

definition inv_entry :: "mapper \<Rightarrow> bool" where
  "inv_entry s = (\<forall>t p. in_flight_for s t p \<longrightarrow> map_get (creatingTopics_mp s) t = Some p)"

definition inv_cache :: "mapper \<Rightarrow> bool" where
  "inv_cache s =
     (\<forall>t p. in_flight_for s t p \<longrightarrow>
        map_get (chatMappings_mp s) t = None \<or>
        (\<exists>topic. cr_phase (creations s ! p) = Saved topic \<and>
                  map_get (chatMappings_mp s) t = Some topic))"

definition served_by :: "mapper \<Rightarrow> call \<Rightarrow> nat \<Rightarrow> bool" where
  "served_by s c p =
     (p < length (creations s) \<and> cr_thread (creations s ! p) = c_thread c \<and>
      (c_outcome c = Awaiting p \<or>
       (\<exists>topic. c_outcome c = Cached topic \<and>
          (cr_phase (creations s ! p) = Saved topic \<or>
           cr_phase (creations s ! p) = Settled (Some topic)))))"

definition inv_calls :: "mapper \<Rightarrow> bool" where
  "inv_calls s = (\<forall>c \<in> set (calls s). \<forall>p \<in> set (c_flights c). served_by s c p)"

definition mapper_inv :: "mapper \<Rightarrow> bool" where
  "mapper_inv s = (inv_entry s \<and> inv_cache s \<and> inv_calls s)"

section \<open>Properties of the dedup window\<close>

lemma isNewMessage_watermark_mono:
  "lastMessageCheck s \<le> lastMessageCheck (snd (isNewMessage s m))"
  by (simp add: isNewMessage_def Let_def split: option.splits)

lemma isNewMessage_accepted_watermark:
  "fst (isNewMessage s m) \<Longrightarrow> msg_timestamp m \<le> lastMessageCheck (snd (isNewMessage s m))"
  by (auto simp: isNewMessage_def Let_def split: option.splits if_splits)

lemma isNewMessage_reject_old:
  "msg_timestamp m \<le> lastMessageCheck s \<Longrightarrow> isNewMessage s m = (False, s)"
  by (simp add: isNewMessage_def split: option.splits)

lemma isNewMessage_reject_seen:
  "id_seen s m \<Longrightarrow> isNewMessage s m = (False, s)"
  by (simp add: isNewMessage_def id_seen_def split: option.splits)

lemma isNewMessage_reject_falsy:
  "js_falsy_id (msg_id m) \<Longrightarrow> isNewMessage s m = (False, s)"
  by (simp add: isNewMessage_def js_falsy_id_def split: option.splits)

lemma isNewMessage_accepts:
  "\<not> js_falsy_id (msg_id m) \<Longrightarrow> \<not> id_seen s m \<Longrightarrow> lastMessageCheck s < msg_timestamp m
   \<Longrightarrow> fst (isNewMessage s m)"
  by (auto simp: isNewMessage_def js_falsy_id_def id_seen_def Let_def split: option.splits)

lemma isNewMessage_accepted_watermark_max:
  "fst (isNewMessage s m) \<Longrightarrow>
   lastMessageCheck (snd (isNewMessage s m)) = max (lastMessageCheck s) (msg_timestamp m)"
  by (auto simp: isNewMessage_def Let_def split: option.splits if_splits)

lemma isNewMessage_max:
  "maxProcessedMessageIds (snd (isNewMessage s m)) = maxProcessedMessageIds s"
  by (simp add: isNewMessage_def Let_def split: option.splits)

lemma isNewMessage_rejected: "\<not> fst (isNewMessage s m) \<Longrightarrow> snd (isNewMessage s m) = s"
  by (auto simp: isNewMessage_def Let_def split: option.splits if_splits)

lemma isNewMessage_accepted_id:
  "fst (isNewMessage s m) \<Longrightarrow> \<exists>i. msg_id m = Some i \<and> i \<noteq> []"
  by (auto simp: isNewMessage_def Let_def split: option.splits if_splits)

lemma handled_Nil: "handled s [] = []"
  by (simp add: handled_def)

lemma handled_Cons:
  "handled s (x # ms) =
     (if fst (isNewMessage s x) then [x] else []) @ handled (snd (isNewMessage s x)) ms"
  by (simp add: handled_def split: prod.splits)

lemma state_after_Nil: "state_after s [] = s"
  by (simp add: state_after_def)

lemma state_after_Cons:
  "state_after s (x # ms) = state_after (snd (isNewMessage s x)) ms"
  by (simp add: state_after_def split: prod.splits)

lemma accepted_ids_Cons:
  "accepted_ids s (x # ms) =
     (if fst (isNewMessage s x) then [case msg_id x of None \<Rightarrow> [] | Some i \<Rightarrow> i] else [])
       @ accepted_ids (snd (isNewMessage s x)) ms"
  by (simp add: accepted_ids_def handled_Cons)

text \<open>
  Once the watermark has reached the timestamp of a message, no later poll hands that
  message on: the watermark never decreases.
\<close>

lemma old_message_never_handled:
  "msg_timestamp m \<le> lastMessageCheck s \<Longrightarrow> m \<notin> set (handled s ms)"
proof (induction ms arbitrary: s)
  case Nil
  show ?case by (simp add: handled_Nil)
next
  case (Cons x ms)
  have mono: "msg_timestamp m \<le> lastMessageCheck (snd (isNewMessage s x))"
    using Cons.prems isNewMessage_watermark_mono [of s x] by linarith
  have tail: "m \<notin> set (handled (snd (isNewMessage s x)) ms)"
    using Cons.IH [OF mono] .
  have "x = m \<Longrightarrow> \<not> fst (isNewMessage s x)"
    using Cons.prems isNewMessage_reject_old [of m s] by simp
  with tail show ?case by (auto simp: handled_Cons)
qed

lemma handled_at_most_once: "count_list (handled s ms) m \<le> 1"
proof (induction ms arbitrary: s)
  case Nil
  show ?case by (simp add: handled_Nil)
next
  case (Cons x ms)
  show ?case
  proof (cases "fst (isNewMessage s x) \<and> x = m")
    case True
    then have "msg_timestamp m \<le> lastMessageCheck (snd (isNewMessage s m))"
      using isNewMessage_accepted_watermark by blast
    then have "m \<notin> set (handled (snd (isNewMessage s m)) ms)"
      by (rule old_message_never_handled)
    then have "count_list (handled (snd (isNewMessage s m)) ms) m = 0"
      by (simp add: count_list_0_iff)
    with True show ?thesis by (simp add: handled_Cons)
  next
    case False
    then show ?thesis using Cons.IH [of "snd (isNewMessage s x)"]
      by (auto simp: handled_Cons)
  qed
qed

lemma handled_exactly_once:
  assumes a: "fst (isNewMessage s m)"
  shows "count_list (handled s (m # ms)) m = 1"
proof -
  have "m \<notin> set (handled (snd (isNewMessage s m)) ms)"
    using a isNewMessage_accepted_watermark old_message_never_handled by blast
  then have "count_list (handled (snd (isNewMessage s m)) ms) m = 0"
    by (simp add: count_list_0_iff)
  with a show ?thesis by (simp add: handled_Cons)
qed

text \<open>The window after an accepted message, and over a whole run.\<close>

lemma evict_first_distinct:
  "distinct xs \<Longrightarrow> evict_first xs = tl xs"
  by (cases xs) (simp_all add: evict_first_def set_first_def set_delete_def)

lemma keep_last_append:
  "keep_last n (keep_last n a @ b) = keep_last n (a @ b)"
  by (cases "length a \<le> n") (auto simp: keep_last_def add.commute)

lemma accepted_fresh:
  "fst (isNewMessage s m) \<Longrightarrow> msg_id m = Some i \<Longrightarrow> i \<notin> set (processedMessageIds s)"
  by (auto simp: isNewMessage_def set_has_def split: if_splits)

lemma accepted_window_cases:
  assumes ok: "window_ok s" and acc: "fst (isNewMessage s m)" and i: "msg_id m = Some i"
  shows "processedMessageIds (snd (isNewMessage s m)) =
           (if length (processedMessageIds s) < maxProcessedMessageIds s
            then processedMessageIds s @ [i]
            else tl (processedMessageIds s @ [i]))"
proof -
  have fresh: "i \<notin> set (processedMessageIds s)"
    using acc i by (rule accepted_fresh)
  have d: "distinct (processedMessageIds s @ [i])"
    using ok fresh by (simp add: window_ok_def)
  have "processedMessageIds (snd (isNewMessage s m)) =
        (if length (processedMessageIds s @ [i]) > maxProcessedMessageIds s
         then tl (processedMessageIds s @ [i]) else processedMessageIds s @ [i])"
    using acc i fresh d
    by (auto simp: isNewMessage_def set_has_def set_add_def Let_def evict_first_distinct
             split: if_splits)
  then show ?thesis by (simp add: less_Suc_eq_le not_less)
qed

lemma accepted_window:
  assumes ok: "window_ok s" and acc: "fst (isNewMessage s m)" and i: "msg_id m = Some i"
  shows "processedMessageIds (snd (isNewMessage s m)) =
           keep_last (maxProcessedMessageIds s) (processedMessageIds s @ [i])"
proof (cases "length (processedMessageIds s) < maxProcessedMessageIds s")
  case True
  then show ?thesis
    using accepted_window_cases [OF ok acc i] by (simp add: keep_last_def)
next
  case False
  with ok have k: "length (processedMessageIds s @ [i]) - maxProcessedMessageIds s = Suc 0"
    by (simp add: window_ok_def)
  have t: "drop (Suc 0) xs = tl xs" for xs :: "string list"
    by (simp add: drop_Suc)
  from False have "processedMessageIds (snd (isNewMessage s m)) = tl (processedMessageIds s @ [i])"
    using accepted_window_cases [OF ok acc i] by presburger
  then show ?thesis unfolding keep_last_def k t .
qed

lemma window_ok_step: "window_ok s \<Longrightarrow> window_ok (snd (isNewMessage s m))"
proof (cases "fst (isNewMessage s m)")
  case False
  assume "window_ok s"
  with False show ?thesis by (simp add: isNewMessage_rejected)
next
  case True
  assume ok: "window_ok s"
  from True obtain i where i: "msg_id m = Some i" using isNewMessage_accepted_id by blast
  have fresh: "i \<notin> set (processedMessageIds s)"
    using True i by (rule accepted_fresh)
  have "distinct (processedMessageIds s @ [i])" using ok fresh by (simp add: window_ok_def)
  then have "distinct (keep_last (maxProcessedMessageIds s) (processedMessageIds s @ [i]))"
    unfolding keep_last_def by (rule distinct_drop)
  moreover have "length (keep_last (maxProcessedMessageIds s) (processedMessageIds s @ [i]))
                   \<le> maxProcessedMessageIds s"
    by (simp add: keep_last_def)
  ultimately show ?thesis
    using accepted_window [OF ok True i] by (simp add: window_ok_def isNewMessage_max)
qed

lemma state_after_max: "maxProcessedMessageIds (state_after s ms) = maxProcessedMessageIds s"
  by (induction ms arbitrary: s) (simp_all add: state_after_Nil state_after_Cons isNewMessage_max)

lemma window_ok_run: "window_ok s \<Longrightarrow> window_ok (state_after s ms)"
  by (induction ms arbitrary: s) (simp_all add: state_after_Nil state_after_Cons window_ok_step)

lemma window_is_recent_accepted:
  "window_ok s \<Longrightarrow>
   processedMessageIds (state_after s ms) =
     keep_last (maxProcessedMessageIds s) (processedMessageIds s @ accepted_ids s ms)"
proof (induction ms arbitrary: s)
  case Nil
  then show ?case
    by (simp add: state_after_Nil accepted_ids_def handled_Nil keep_last_def window_ok_def)
next
  case (Cons x ms)
  let ?s1 = "snd (isNewMessage s x)"
  have ok1: "window_ok ?s1" using Cons.prems by (rule window_ok_step)
  note IH = Cons.IH [OF ok1]
  show ?case
  proof (cases "fst (isNewMessage s x)")
    case False
    then show ?thesis
      using IH by (simp add: state_after_Cons accepted_ids_Cons isNewMessage_rejected)
  next
    case True
    then obtain i where i: "msg_id x = Some i" using isNewMessage_accepted_id by blast
    have w: "processedMessageIds ?s1 =
               keep_last (maxProcessedMessageIds s) (processedMessageIds s @ [i])"
      using accepted_window [OF Cons.prems True i] .
    have "processedMessageIds (state_after s (x # ms)) =
          keep_last (maxProcessedMessageIds s)
            (keep_last (maxProcessedMessageIds s) (processedMessageIds s @ [i])
               @ accepted_ids ?s1 ms)"
      using IH w by (simp add: state_after_Cons isNewMessage_max)
    also have "\<dots> = keep_last (maxProcessedMessageIds s)
                      ((processedMessageIds s @ [i]) @ accepted_ids ?s1 ms)"
      by (rule keep_last_append)
    finally show ?thesis using True i by (simp add: accepted_ids_Cons)
  qed
qed

lemma constructor_window_ok: "window_ok (constructor t0)"
  by (simp add: window_ok_def constructor_def)

lemma isNewMessage_accepted_iff:
  "fst (isNewMessage s m) =
     (\<not> js_falsy_id (msg_id m) \<and> lastMessageCheck s < msg_timestamp m \<and> \<not> id_seen s m)"
  by (auto simp: isNewMessage_def js_falsy_id_def id_seen_def Let_def split: option.splits)

lemma handled_append:
  "handled s (a @ b) = handled s a @ handled (state_after s a) b"
  by (induction a arbitrary: s) (simp_all add: handled_Nil handled_Cons state_after_Nil state_after_Cons)

lemma handled_subset: "set (handled s ms) \<subseteq> set ms"
  by (induction ms arbitrary: s) (auto simp: handled_Nil handled_Cons)

lemma handled_split:
  "x \<in> set (handled s ms) \<Longrightarrow>
   \<exists>pre post. ms = pre @ x # post \<and> fst (isNewMessage (state_after s pre) x)"
proof (induction ms arbitrary: s)
  case Nil
  then show ?case by (simp add: handled_Nil)
next
  case (Cons a ms)
  show ?case
  proof (cases "fst (isNewMessage s a) \<and> x = a")
    case True
    then have "a # ms = [] @ x # ms \<and> fst (isNewMessage (state_after s []) x)"
      by (simp add: state_after_Nil)
    then show ?thesis by blast
  next
    case False
    with Cons.prems have "x \<in> set (handled (snd (isNewMessage s a)) ms)"
      by (auto simp: handled_Cons split: if_splits)
    from Cons.IH [OF this] obtain pre post where
      p: "ms = pre @ x # post" "fst (isNewMessage (state_after (snd (isNewMessage s a)) pre) x)"
      by blast
    then have "a # ms = (a # pre) @ x # post \<and> fst (isNewMessage (state_after s (a # pre)) x)"
      by (simp add: state_after_Cons)
    then show ?thesis by blast
  qed
qed

lemma accepted_ids_length: "length (accepted_ids s ms) = length (handled s ms)"
  by (simp add: accepted_ids_def)

lemma keep_last_recent: "length acc < n \<Longrightarrow> i \<in> set (keep_last n (u @ i # acc))"
  by (simp add: keep_last_def)

lemma accepted_id_last:
  assumes ok: "window_ok s" and acc: "fst (isNewMessage s m)" and i: "msg_id m = Some i"
      and pos: "0 < maxProcessedMessageIds s"
  shows "\<exists>u. processedMessageIds (snd (isNewMessage s m)) = u @ [i]"
proof (cases "length (processedMessageIds s) < maxProcessedMessageIds s")
  case True
  then show ?thesis using accepted_window_cases [OF ok acc i] by simp
next
  case False
  with pos have "processedMessageIds s \<noteq> []" by auto
  then have "tl (processedMessageIds s @ [i]) = tl (processedMessageIds s) @ [i]" by simp
  with False show ?thesis using accepted_window_cases [OF ok acc i] by simp
qed

lemma same_id_rejected:
  assumes ok: "window_ok s" and acc: "fst (isNewMessage s m)"
      and same: "msg_id x = msg_id m"
      and few: "length (handled (snd (isNewMessage s m)) mid) < maxProcessedMessageIds s"
  shows "\<not> fst (isNewMessage (state_after (snd (isNewMessage s m)) mid) x)"
proof -
  let ?s1 = "snd (isNewMessage s m)"
  from acc obtain i where i: "msg_id m = Some i" using isNewMessage_accepted_id by blast
  from few have pos: "0 < maxProcessedMessageIds s" by simp
  from accepted_id_last [OF ok acc i pos] obtain u where u: "processedMessageIds ?s1 = u @ [i]"
    by blast
  have ok1: "window_ok ?s1" using ok by (rule window_ok_step)
  have "processedMessageIds (state_after ?s1 mid) =
          keep_last (maxProcessedMessageIds s) (u @ i # accepted_ids ?s1 mid)"
    using window_is_recent_accepted [OF ok1, of mid] u by (simp add: isNewMessage_max)
  moreover have "i \<in> set (keep_last (maxProcessedMessageIds s) (u @ i # accepted_ids ?s1 mid))"
    using few by (intro keep_last_recent) (simp add: accepted_ids_length)
  ultimately have "id_seen (state_after ?s1 mid) x"
    using same i by (simp add: id_seen_def set_has_def)
  then show ?thesis by (simp add: isNewMessage_reject_seen)
qed

lemma same_id_not_handled:
  assumes ok: "window_ok s" and acc: "fst (isNewMessage s m)"
      and few: "length (handled (snd (isNewMessage s m)) ms) < maxProcessedMessageIds s"
      and x: "x \<in> set (handled (snd (isNewMessage s m)) ms)"
  shows "msg_id x \<noteq> msg_id m"
proof
  assume same: "msg_id x = msg_id m"
  let ?s1 = "snd (isNewMessage s m)"
  from handled_split [OF x] obtain pre post where
    p: "ms = pre @ x # post" "fst (isNewMessage (state_after ?s1 pre) x)" by blast
  have "length (handled ?s1 pre) \<le> length (handled ?s1 ms)"
    by (simp add: p(1) handled_append)
  with few have "length (handled ?s1 pre) < maxProcessedMessageIds s" by simp
  from same_id_rejected [OF ok acc same this] p(2) show False by simp
qed

lemma first_delivery_exactly_once:
  assumes ok: "window_ok s"
      and first: "\<forall>x \<in> set pre. msg_id x \<noteq> msg_id m"
      and acc: "fst (isNewMessage (state_after s pre) m)"
      and few: "length (handled (state_after s pre) (m # ms)) \<le> maxProcessedMessageIds s"
  shows "filter (\<lambda>x. msg_id x = msg_id m) (handled s (pre @ m # ms)) = [m]"
proof -
  let ?s0 = "state_after s pre"
  let ?s1 = "snd (isNewMessage ?s0 m)"
  have ok0: "window_ok ?s0" using ok by (rule window_ok_run)
  have h: "handled ?s0 (m # ms) = m # handled ?s1 ms"
    using acc by (simp add: handled_Cons)
  with few have few1: "length (handled ?s1 ms) < maxProcessedMessageIds ?s0"
    by (simp add: state_after_max)
  have a: "filter (\<lambda>x. msg_id x = msg_id m) (handled s pre) = []"
    using first handled_subset [of s pre] by (auto simp: filter_empty_conv)
  have b: "filter (\<lambda>x. msg_id x = msg_id m) (handled ?s1 ms) = []"
    using same_id_not_handled [OF ok0 acc few1] by (auto simp: filter_empty_conv)
  show ?thesis by (simp add: handled_append h a b)
qed

lemma accepted_at_any_position:
  assumes acc: "fst (isNewMessage (state_after s pre) m)"
  shows "count_list (handled s (pre @ m # post)) m = 1"
proof -
  have "count_list (handled s (pre @ m # post)) m \<le> 1" by (rule handled_at_most_once)
  moreover have "m \<in> set (handled s (pre @ m # post))"
    using acc by (simp add: handled_append handled_Cons)
  then have "count_list (handled s (pre @ m # post)) m \<noteq> 0"
    by (simp add: count_list_0_iff)
  ultimately show ?thesis by simp
qed

lemma accepted_after_run:
  assumes ok: "window_ok s" and i: "msg_id x = Some i"
  shows "fst (isNewMessage (state_after s ms) x) =
           (i \<noteq> [] \<and> lastMessageCheck (state_after s ms) < msg_timestamp x \<and>
            i \<notin> set (keep_last (maxProcessedMessageIds s)
                         (processedMessageIds s @ accepted_ids s ms)))"
  using window_is_recent_accepted [OF ok, of ms] i
  by (simp add: isNewMessage_accepted_iff js_falsy_id_def id_seen_def set_has_def)

section \<open>The dedup contract\<close>

text \<open>
  Claim C1 as stated fails in its last part. The watermark starts at the time the bot is
  constructed, and a message whose timestamp is not above it is rejected at every
  delivery: the message \<open>m1\<close> with timestamp 100, delivered twice to a bot started at
  1700000000000, is not handed on at all, not once.
\<close>

theorem dedup_exactly_once_counterexample:
  "isNewMessage (constructor 1700000000000) \<lparr>msg_id = Some ''m1'', msg_timestamp = 100\<rparr>
     = (False, constructor 1700000000000) \<and>
   handled (constructor 1700000000000)
      [\<lparr>msg_id = Some ''m1'', msg_timestamp = 100\<rparr>,
       \<lparr>msg_id = Some ''m1'', msg_timestamp = 100\<rparr>] = [] \<and>
   count_list (handled (constructor 1700000000000)
      [\<lparr>msg_id = Some ''m1'', msg_timestamp = 100\<rparr>,
       \<lparr>msg_id = Some ''m1'', msg_timestamp = 100\<rparr>])
      \<lparr>msg_id = Some ''m1'', msg_timestamp = 100\<rparr> \<noteq> 1"
  by (simp add: handled_def isNewMessage_def constructor_def)

text \<open>
  Claim C1, amended. The acceptance check returns false, and changes nothing, when the id
  of the message is already in the set or its timestamp is not above the watermark
  (conjunct 1). It accepts a message with an id that is present, unseen and newer than the
  watermark (2); on acceptance the watermark becomes the maximum of the old watermark and
  the timestamp and the id is in the set, the set's maximum being positive (3). In any
  sequence of deliveries no message is handed on twice (4), and a message that is accepted
  at one of its deliveries is handed on exactly once however often it is delivered before
  or after (5). For the id: when the first delivery of an id is accepted and no more
  messages are accepted from that delivery on than the set can hold, the messages handed
  on with this id are that first delivery and nothing else, whatever timestamps the later
  deliveries carry (6). A message with a timestamp not above the watermark is never handed
  on (7). After any run, a message is accepted exactly when its id is not empty, its
  timestamp is above the watermark and its id is not among the most recent accepted ids
  that the set holds (8).
\<close>

theorem isNewMessage_dedup_contract:
  "(id_seen s m \<or> msg_timestamp m \<le> lastMessageCheck s \<longrightarrow> isNewMessage s m = (False, s)) \<and>
   (\<not> js_falsy_id (msg_id m) \<and> \<not> id_seen s m \<and> lastMessageCheck s < msg_timestamp m
      \<longrightarrow> fst (isNewMessage s m)) \<and>
   (fst (isNewMessage s m) \<longrightarrow>
      lastMessageCheck (snd (isNewMessage s m)) = max (lastMessageCheck s) (msg_timestamp m) \<and>
      (0 < maxProcessedMessageIds s \<longrightarrow> id_seen (snd (isNewMessage s m)) m)) \<and>
   count_list (handled s ms) m \<le> 1 \<and>
   (fst (isNewMessage (state_after s pre) m)
      \<longrightarrow> count_list (handled s (pre @ m # ms)) m = 1) \<and>
   (window_ok s \<and> (\<forall>x \<in> set pre. msg_id x \<noteq> msg_id m) \<and>
    fst (isNewMessage (state_after s pre) m) \<and>
    length (handled (state_after s pre) (m # ms)) \<le> maxProcessedMessageIds s
      \<longrightarrow> filter (\<lambda>x. msg_id x = msg_id m) (handled s (pre @ m # ms)) = [m]) \<and>
   (msg_timestamp m \<le> lastMessageCheck s \<longrightarrow> count_list (handled s ms) m = 0) \<and>
   (window_ok s \<and> msg_id m = Some i \<longrightarrow>
      fst (isNewMessage (state_after s ms) m) =
        (i \<noteq> [] \<and> lastMessageCheck (state_after s ms) < msg_timestamp m \<and>
         i \<notin> set (keep_last (maxProcessedMessageIds s)
                      (processedMessageIds s @ accepted_ids s ms))))"
proof -
  have recorded: "id_seen (snd (isNewMessage s m)) m"
    if acc: "fst (isNewMessage s m)" and pos: "0 < maxProcessedMessageIds s"
  proof -
    from acc obtain i where i: "msg_id m = Some i" using isNewMessage_accepted_id by blast
    have fresh: "i \<notin> set (processedMessageIds s)" using acc i by (rule accepted_fresh)
    have "processedMessageIds (snd (isNewMessage s m)) =
            (if length (set_add (processedMessageIds s) i) > maxProcessedMessageIds s
             then evict_first (set_add (processedMessageIds s) i)
             else set_add (processedMessageIds s) i)"
      using acc i by (auto simp: isNewMessage_def Let_def split: if_splits)
    moreover have "set_add (processedMessageIds s) i = processedMessageIds s @ [i]"
      using fresh by (simp add: set_add_def set_has_def)
    moreover have "i \<in> set (evict_first (processedMessageIds s @ [i]))"
      if "length (processedMessageIds s @ [i]) > maxProcessedMessageIds s"
    proof (cases "processedMessageIds s")
      case Nil
      with that pos show ?thesis by simp
    next
      case (Cons y ys)
      with fresh show ?thesis
        by (auto simp: evict_first_def set_first_def set_delete_def)
    qed
    ultimately have "i \<in> set (processedMessageIds (snd (isNewMessage s m)))"
      by simp
    then show ?thesis using i by (simp add: id_seen_def set_has_def)
  qed
  have c1: "id_seen s m \<or> msg_timestamp m \<le> lastMessageCheck s
              \<longrightarrow> isNewMessage s m = (False, s)"
    using isNewMessage_reject_seen [of s m] isNewMessage_reject_old [of m s] by blast
  have c2: "\<not> js_falsy_id (msg_id m) \<and> \<not> id_seen s m \<and> lastMessageCheck s < msg_timestamp m
              \<longrightarrow> fst (isNewMessage s m)"
    using isNewMessage_accepts [of m s] by blast
  have c3: "fst (isNewMessage s m) \<longrightarrow>
      lastMessageCheck (snd (isNewMessage s m)) = max (lastMessageCheck s) (msg_timestamp m) \<and>
      (0 < maxProcessedMessageIds s \<longrightarrow> id_seen (snd (isNewMessage s m)) m)"
    using isNewMessage_accepted_watermark_max [of s m] recorded by blast
  have c4: "count_list (handled s ms) m \<le> 1" by (rule handled_at_most_once)
  have c5: "fst (isNewMessage (state_after s pre) m)
              \<longrightarrow> count_list (handled s (pre @ m # ms)) m = 1"
    using accepted_at_any_position [of s pre m ms] by blast
  have c6: "window_ok s \<and> (\<forall>x \<in> set pre. msg_id x \<noteq> msg_id m) \<and>
            fst (isNewMessage (state_after s pre) m) \<and>
            length (handled (state_after s pre) (m # ms)) \<le> maxProcessedMessageIds s
              \<longrightarrow> filter (\<lambda>x. msg_id x = msg_id m) (handled s (pre @ m # ms)) = [m]"
    using first_delivery_exactly_once [of s pre m ms] by blast
  have c7: "msg_timestamp m \<le> lastMessageCheck s \<longrightarrow> count_list (handled s ms) m = 0"
    using old_message_never_handled [of m s ms] by (simp add: count_list_0_iff)
  have c8: "window_ok s \<and> msg_id m = Some i \<longrightarrow>
      fst (isNewMessage (state_after s ms) m) =
        (i \<noteq> [] \<and> lastMessageCheck (state_after s ms) < msg_timestamp m \<and>
         i \<notin> set (keep_last (maxProcessedMessageIds s)
                      (processedMessageIds s @ accepted_ids s ms)))"
    using accepted_after_run [of s m i ms] by blast
  show ?thesis
    by (intro conjI) (rule c1, rule c2, rule c3, rule c4, rule c5, rule c6, rule c7, rule c8)
qed

theorem isNewMessage_dedup_contract_witness:
  "window_ok (constructor 0) \<and>
   fst (isNewMessage (state_after (constructor 0) [\<lparr>msg_id = Some ''m0'', msg_timestamp = 50\<rparr>])
          \<lparr>msg_id = Some ''m1'', msg_timestamp = 100\<rparr>) \<and>
   handled (constructor 0)
      [\<lparr>msg_id = Some ''m0'', msg_timestamp = 50\<rparr>,
       \<lparr>msg_id = Some ''m1'', msg_timestamp = 100\<rparr>,
       \<lparr>msg_id = Some ''m2'', msg_timestamp = 150\<rparr>,
       \<lparr>msg_id = Some ''m1'', msg_timestamp = 200\<rparr>,
       \<lparr>msg_id = Some ''m1'', msg_timestamp = 100\<rparr>]
     = [\<lparr>msg_id = Some ''m0'', msg_timestamp = 50\<rparr>,
        \<lparr>msg_id = Some ''m1'', msg_timestamp = 100\<rparr>,
        \<lparr>msg_id = Some ''m2'', msg_timestamp = 150\<rparr>] \<and>
   filter (\<lambda>x. msg_id x = Some ''m1'')
     (handled (constructor 0)
        [\<lparr>msg_id = Some ''m0'', msg_timestamp = 50\<rparr>,
         \<lparr>msg_id = Some ''m1'', msg_timestamp = 100\<rparr>,
         \<lparr>msg_id = Some ''m2'', msg_timestamp = 150\<rparr>,
         \<lparr>msg_id = Some ''m1'', msg_timestamp = 200\<rparr>,
         \<lparr>msg_id = Some ''m1'', msg_timestamp = 100\<rparr>])
     = [\<lparr>msg_id = Some ''m1'', msg_timestamp = 100\<rparr>] \<and>
   count_list (handled (constructor 0)
        [\<lparr>msg_id = Some ''m0'', msg_timestamp = 50\<rparr>,
         \<lparr>msg_id = Some ''m1'', msg_timestamp = 100\<rparr>,
         \<lparr>msg_id = Some ''m2'', msg_timestamp = 150\<rparr>,
         \<lparr>msg_id = Some ''m1'', msg_timestamp = 200\<rparr>,
         \<lparr>msg_id = Some ''m1'', msg_timestamp = 100\<rparr>])
      \<lparr>msg_id = Some ''m1'', msg_timestamp = 100\<rparr> = 1"
proof -
  let ?s = "constructor 0"
  let ?first = "\<lparr>msg_id = Some ''m0'', msg_timestamp = 50\<rparr>"
  let ?m = "\<lparr>msg_id = Some ''m1'', msg_timestamp = 100\<rparr>"
  let ?other = "\<lparr>msg_id = Some ''m2'', msg_timestamp = 150\<rparr>"
  let ?again = "\<lparr>msg_id = Some ''m1'', msg_timestamp = 200\<rparr>"
  have ok: "window_ok ?s" by (simp add: window_ok_def constructor_def)
  have fst_id: "\<forall>x \<in> set [?first]. msg_id x \<noteq> msg_id ?m" by simp
  have acc: "fst (isNewMessage (state_after ?s [?first]) ?m)"
    by (simp add: state_after_def isNewMessage_def constructor_def set_has_def set_add_def
          Let_def)
  have run: "handled ?s ([?first] @ ?m # [?other, ?again, ?m]) = [?first, ?m, ?other]"
    by (simp add: handled_def isNewMessage_def constructor_def set_has_def set_add_def Let_def)
  have few: "length (handled (state_after ?s [?first]) (?m # [?other, ?again, ?m]))
               \<le> maxProcessedMessageIds ?s"
    by (simp add: handled_def state_after_def isNewMessage_def constructor_def set_has_def
          set_add_def Let_def)
  note c = isNewMessage_dedup_contract [where s = ?s and m = ?m and pre = "[?first]"
             and ms = "[?other, ?again, ?m]"]
  have once: "count_list (handled ?s ([?first] @ ?m # [?other, ?again, ?m])) ?m = 1"
    by (rule c [THEN conjunct2, THEN conjunct2, THEN conjunct2, THEN conjunct2,
                THEN conjunct1, THEN mp]) (rule acc)
  have only: "filter (\<lambda>x. msg_id x = msg_id ?m) (handled ?s ([?first] @ ?m # [?other, ?again, ?m])) = [?m]"
    by (rule c [THEN conjunct2, THEN conjunct2, THEN conjunct2, THEN conjunct2,
                THEN conjunct2, THEN conjunct1, THEN mp])
       (intro conjI ok fst_id acc few)
  show ?thesis
    using ok acc run once only by simp
qed

text \<open>
  Claim C4. The set never holds more ids than its maximum once an acceptance check has
  completed, and the id it drops is the oldest one: on a set that is full the new set is
  the old one without its first element, followed by the new id; on a set that is not
  full nothing is dropped. From the constructor on, the set is at all times exactly the
  last 1000 accepted ids, in the order of their acceptance.
\<close>

theorem dedup_window_bounded_fifo:
  "(window_ok s \<longrightarrow> window_ok (snd (isNewMessage s m))) \<and>
   (window_ok s \<and> fst (isNewMessage s m) \<and> msg_id m = Some i \<longrightarrow>
      processedMessageIds (snd (isNewMessage s m)) =
        (if length (processedMessageIds s) < maxProcessedMessageIds s
         then processedMessageIds s @ [i]
         else tl (processedMessageIds s @ [i]))) \<and>
   length (processedMessageIds (state_after (constructor t0) ms)) \<le> 1000 \<and>
   processedMessageIds (state_after (constructor t0) ms) =
     keep_last 1000 (accepted_ids (constructor t0) ms)"
proof -
  have run_ok: "window_ok (state_after (constructor t0) ms)"
    using constructor_window_ok by (rule window_ok_run)
  have "maxProcessedMessageIds (state_after (constructor t0) ms) = 1000"
    by (simp add: state_after_max constructor_def)
  with run_ok have bound: "length (processedMessageIds (state_after (constructor t0) ms)) \<le> 1000"
    by (simp add: window_ok_def)
  have fifo: "processedMessageIds (state_after (constructor t0) ms) =
                keep_last 1000 (accepted_ids (constructor t0) ms)"
    using window_is_recent_accepted [OF constructor_window_ok, of t0 ms]
    by (simp add: constructor_def)
  show ?thesis
    using window_ok_step [of s m] accepted_window_cases [of s m i] bound fifo
    by blast
qed

theorem dedup_window_bounded_fifo_witness:
  "window_ok \<lparr>processedMessageIds = [''a'', ''b''], maxProcessedMessageIds = 2,
              lastMessageCheck = 0\<rparr> \<and>
   fst (isNewMessage \<lparr>processedMessageIds = [''a'', ''b''], maxProcessedMessageIds = 2,
                      lastMessageCheck = 0\<rparr> \<lparr>msg_id = Some ''c'', msg_timestamp = 5\<rparr>) \<and>
   processedMessageIds (snd (isNewMessage
       \<lparr>processedMessageIds = [''a'', ''b''], maxProcessedMessageIds = 2, lastMessageCheck = 0\<rparr>
       \<lparr>msg_id = Some ''c'', msg_timestamp = 5\<rparr>)) = [''b'', ''c''] \<and>
   window_ok (snd (isNewMessage
       \<lparr>processedMessageIds = [''a'', ''b''], maxProcessedMessageIds = 2, lastMessageCheck = 0\<rparr>
       \<lparr>msg_id = Some ''c'', msg_timestamp = 5\<rparr>))"
proof -
  let ?s = "\<lparr>processedMessageIds = [''a'', ''b''], maxProcessedMessageIds = 2,
             lastMessageCheck = 0\<rparr>"
  let ?m = "\<lparr>msg_id = Some ''c'', msg_timestamp = 5\<rparr>"
  have ok: "window_ok ?s" by (simp add: window_ok_def)
  have acc: "fst (isNewMessage ?s ?m)"
    by (simp add: isNewMessage_def set_has_def Let_def)
  have i: "msg_id ?m = Some ''c''" by simp
  show ?thesis
    using dedup_window_bounded_fifo [of ?s ?m "''c''" 0 "[]"] ok acc i
    by simp
qed

text \<open>
  Claim C9. A message whose id is missing (absent, or the empty string) is rejected: the
  check returns false and the state it returns is the state it was given, so the set of
  seen ids and the watermark are unchanged.
\<close>

theorem isNewMessage_missing_id:
  "js_falsy_id (msg_id m) \<Longrightarrow>
     isNewMessage s m = (False, s) \<and>
     processedMessageIds (snd (isNewMessage s m)) = processedMessageIds s \<and>
     lastMessageCheck (snd (isNewMessage s m)) = lastMessageCheck s"
  by (simp add: isNewMessage_reject_falsy)

theorem isNewMessage_missing_id_witness:
  "js_falsy_id (msg_id \<lparr>msg_id = None, msg_timestamp = 100\<rparr>) \<and>
   isNewMessage (constructor 0) \<lparr>msg_id = None, msg_timestamp = 100\<rparr> = (False, constructor 0) \<and>
   js_falsy_id (msg_id \<lparr>msg_id = Some [], msg_timestamp = 100\<rparr>) \<and>
   isNewMessage (constructor 0) \<lparr>msg_id = Some [], msg_timestamp = 100\<rparr> = (False, constructor 0)"
proof -
  have a: "js_falsy_id (msg_id \<lparr>msg_id = None, msg_timestamp = 100\<rparr>)"
    by (simp add: js_falsy_id_def)
  have b: "js_falsy_id (msg_id \<lparr>msg_id = Some [], msg_timestamp = 100\<rparr>)"
    by (simp add: js_falsy_id_def)
  show ?thesis
    using isNewMessage_missing_id [OF a, of "constructor 0"]
      isNewMessage_missing_id [OF b, of "constructor 0"] a b
    by simp
qed

section \<open>Properties of the mapping store\<close>

lemma find_chat_upsert:
  "instagramThreadId d = t \<Longrightarrow> find_chat (upsert_chat ds t d) t = Some d"
  by (induction ds t d rule: upsert_chat.induct) auto

lemma stored_after_save:
  "collection b \<noteq> None \<Longrightarrow> db_chat_ok e \<Longrightarrow>
   stored_chat (saveChatMapping b e t topic pic) t = Some (new_chat_doc e t topic pic)"
  by (auto simp: stored_chat_def saveChatMapping_def find_chat_upsert new_chat_doc_def)

lemma stored_after_save_enhanced:
  "collection b \<noteq> None \<Longrightarrow> db_chat_ok e \<Longrightarrow>
   stored_chat (saveChatMapping_enhanced b e t topic pic) t = Some (new_chat_doc e t topic pic)"
  by (auto simp: stored_chat_def saveChatMapping_enhanced_def find_chat_upsert new_chat_doc_def)

lemma save_keeps_collection:
  "collection b \<noteq> None \<Longrightarrow> collection (saveChatMapping b e t topic pic) \<noteq> None"
  by (auto simp: saveChatMapping_def)

lemma save_keeps_collection_enhanced:
  "collection b \<noteq> None \<Longrightarrow> collection (saveChatMapping_enhanced b e t topic pic) \<noteq> None"
  by (auto simp: saveChatMapping_enhanced_def)

lemma started_collection: "collection (started []) = Some []"
  by (simp add: started_def initialize_def bridge_constructor_def truthy_def)

lemma map_get_set: "map_get (map_set m k v) k' = (if k' = k then Some v else map_get m k')"
  by (induction m) (auto simp: map_get_def)

lemma map_get_delete: "map_get (map_delete m k) k' = (if k' = k then None else map_get m k')"
  by (induction m) (auto simp: map_get_def map_delete_def)

lemma map_get_delete_other: "k \<noteq> k' \<Longrightarrow> map_get (map_delete m k') k = map_get m k"
  by (induction m) (auto simp: map_get_def map_delete_def)

text \<open>
  Claim C10. With a collection and a successful \<^verbatim>\<open>updateOne\<close>, the document stored for
  the thread after \<^verbatim>\<open>saveChatMapping\<close> has \<^verbatim>\<open>createdAt\<close> and \<^verbatim>\<open>lastActivity\<close> equal to the time
  of that save, whatever was stored before; so after a second save of the same thread
  \<^verbatim>\<open>createdAt\<close> is the time of the second save. The same holds in the enhanced bridge.
\<close>

theorem saveChatMapping_overwrites_createdAt:
  "collection b \<noteq> None \<and> db_chat_ok e1 \<and> db_chat_ok e2 \<longrightarrow>
     map_option createdAt (stored_chat (saveChatMapping b e1 t topic pic) t) = Some (now e1) \<and>
     map_option lastActivity (stored_chat (saveChatMapping b e1 t topic pic) t) = Some (now e1) \<and>
     map_option createdAt
       (stored_chat (saveChatMapping (saveChatMapping b e1 t topic pic) e2 t topic' pic') t)
       = Some (now e2) \<and>
     map_option lastActivity
       (stored_chat (saveChatMapping (saveChatMapping b e1 t topic pic) e2 t topic' pic') t)
       = Some (now e2) \<and>
     map_option createdAt (stored_chat (saveChatMapping_enhanced b e1 t topic pic) t)
       = Some (now e1) \<and>
     map_option lastActivity (stored_chat (saveChatMapping_enhanced b e1 t topic pic) t)
       = Some (now e1) \<and>
     map_option createdAt
       (stored_chat (saveChatMapping_enhanced (saveChatMapping_enhanced b e1 t topic pic)
                       e2 t topic' pic') t)
       = Some (now e2)"
  by (simp add: stored_after_save stored_after_save_enhanced save_keeps_collection
        save_keeps_collection_enhanced new_chat_doc_def)

theorem saveChatMapping_overwrites_createdAt_witness:
  "collection (started []) \<noteq> None \<and> db_chat_ok (all_ok 10 5) \<and> db_chat_ok (all_ok 20 5) \<and>
   map_option createdAt
     (stored_chat (saveChatMapping (started []) (all_ok 10 5) ''t1'' 5 None) ''t1'') = Some 10 \<and>
   map_option createdAt
     (stored_chat (saveChatMapping (saveChatMapping (started []) (all_ok 10 5) ''t1'' 5 None)
                     (all_ok 20 5) ''t1'' 5 None) ''t1'') = Some 20"
proof -
  have pre: "collection (started []) \<noteq> None \<and> db_chat_ok (all_ok 10 5) \<and>
             db_chat_ok (all_ok 20 5)"
    by (simp add: started_collection all_ok_def)
  have n: "now (all_ok 10 5) = 10" "now (all_ok 20 5) = 20"
    by (simp_all add: all_ok_def)
  show ?thesis
    using saveChatMapping_overwrites_createdAt
            [of "started []" "all_ok 10 5" "all_ok 20 5" "''t1''" 5 None 5 None] pre n
    by simp
qed

text \<open>
  Claim C3, the part of it that the code does not keep: the verification cache is not
  invalidated when a mapping changes. \<^verbatim>\<open>verifyTopicExists\<close> reads and writes the cache under
  the topic id, a number; \<^verbatim>\<open>saveChatMapping\<close> deletes the key \<^verbatim>\<open>instagramThreadId\<close>, a
  string, and the statements that forget a stale mapping do not touch the cache at all.
  So neither changes what the cache holds for any topic id. In the first run below the
  topic 5 of thread \<open>t1\<close> is probed as missing; the mapping of \<open>t1\<close> to topic 5 is then
  saved again; the next message for \<open>t1\<close> is dropped and the new mapping forgotten, on the
  word of the stale cache entry, although Telegram would now report the topic as
  present. In the second run topic 5 is verified and cached, a later send finds the
  thread gone and forgets the mapping, and a new topic 6 is saved for \<open>t1\<close>: after both
  changes of the mapping the cache still holds its entry for topic 5.
\<close>

theorem saveChatMapping_leaves_topic_verification:
  "map_get (topicVerificationCache (saveChatMapping b e thread topic pic)) (KNumber t) =
     map_get (topicVerificationCache b) (KNumber t) \<and>
   map_get (topicVerificationCache (forget_mapping b e thread)) (KNumber t) =
     map_get (topicVerificationCache b) (KNumber t) \<and>
   (case sendSimpleMessage
           (started [Chat (new_chat_doc (all_ok 1 5) ''t1'' 5 None)])
           ((all_ok 9 5)\<lparr>get_chat := ChatNotFound\<rparr>) 5 ''first'' ''t1'' of
      (r1, b1, fx1) \<Rightarrow>
        map_get (topicVerificationCache b1) (KNumber 5) = Some False \<and>
        map_get (topicVerificationCache (saveChatMapping b1 (all_ok 10 5) ''t1'' 5 None))
          (KNumber 5) = Some False \<and>
        map_get (chatMappings (saveChatMapping b1 (all_ok 10 5) ''t1'' 5 None)) ''t1'' = Some 5 \<and>
        (case sendSimpleMessage (saveChatMapping b1 (all_ok 10 5) ''t1'' 5 None)
                (all_ok 11 5) 5 ''hello'' ''t1'' of
           (r2, b2, fx2) \<Rightarrow>
             r2 = None \<and> fx2 = [] \<and> map_get (chatMappings b2) ''t1'' = None)) \<and>
   (case sendSimpleMessage
           (started [Chat (new_chat_doc (all_ok 1 5) ''t1'' 5 None)])
           (all_ok 8 5) 5 ''first'' ''t1'' of
      (r1, b1, fx1) \<Rightarrow>
        map_get (topicVerificationCache b1) (KNumber 5) = Some True \<and>
        (case sendSimpleMessage b1 ((all_ok 9 5)\<lparr>tg_send := ThreadNotFound\<rparr>)
                5 ''second'' ''t1'' of
           (r2, b2, fx2) \<Rightarrow>
             map_get (chatMappings b2) ''t1'' = None \<and>
             map_get (topicVerificationCache b2) (KNumber 5) = Some True \<and>
             map_get (chatMappings (saveChatMapping b2 (all_ok 10 6) ''t1'' 6 None)) ''t1''
               = Some 6 \<and>
             map_get (topicVerificationCache (saveChatMapping b2 (all_ok 10 6) ''t1'' 6 None))
               (KNumber 5) = Some True))"
proof -
  have a: "map_get (topicVerificationCache (saveChatMapping b e thread topic pic)) (KNumber t) =
             map_get (topicVerificationCache b) (KNumber t)"
    by (simp add: saveChatMapping_def map_get_delete_other split: option.splits)
  have b: "map_get (topicVerificationCache (forget_mapping b e thread)) (KNumber t) =
             map_get (topicVerificationCache b) (KNumber t)"
    by (simp add: forget_mapping_def Let_def split: option.splits)
  have c: "(case sendSimpleMessage
           (started [Chat (new_chat_doc (all_ok 1 5) ''t1'' 5 None)])
           ((all_ok 9 5)\<lparr>get_chat := ChatNotFound\<rparr>) 5 ''first'' ''t1'' of
      (r1, b1, fx1) \<Rightarrow>
        map_get (topicVerificationCache b1) (KNumber 5) = Some False \<and>
        map_get (topicVerificationCache (saveChatMapping b1 (all_ok 10 5) ''t1'' 5 None))
          (KNumber 5) = Some False \<and>
        map_get (chatMappings (saveChatMapping b1 (all_ok 10 5) ''t1'' 5 None)) ''t1'' = Some 5 \<and>
        (case sendSimpleMessage (saveChatMapping b1 (all_ok 10 5) ''t1'' 5 None)
                (all_ok 11 5) 5 ''hello'' ''t1'' of
           (r2, b2, fx2) \<Rightarrow>
             r2 = None \<and> fx2 = [] \<and> map_get (chatMappings b2) ''t1'' = None))"
    by (simp add: sendSimpleMessage_def verifyTopicExists_def forget_mapping_def
          saveChatMapping_def started_def initialize_def bridge_constructor_def truthy_def
          new_chat_doc_def all_ok_def map_get_def map_delete_def Let_def)
  have d: "(case sendSimpleMessage
           (started [Chat (new_chat_doc (all_ok 1 5) ''t1'' 5 None)])
           (all_ok 8 5) 5 ''first'' ''t1'' of
      (r1, b1, fx1) \<Rightarrow>
        map_get (topicVerificationCache b1) (KNumber 5) = Some True \<and>
        (case sendSimpleMessage b1 ((all_ok 9 5)\<lparr>tg_send := ThreadNotFound\<rparr>)
                5 ''second'' ''t1'' of
           (r2, b2, fx2) \<Rightarrow>
             map_get (chatMappings b2) ''t1'' = None \<and>
             map_get (topicVerificationCache b2) (KNumber 5) = Some True \<and>
             map_get (chatMappings (saveChatMapping b2 (all_ok 10 6) ''t1'' 6 None)) ''t1''
               = Some 6 \<and>
             map_get (topicVerificationCache (saveChatMapping b2 (all_ok 10 6) ''t1'' 6 None))
               (KNumber 5) = Some True))"
    by (simp add: sendSimpleMessage_def verifyTopicExists_def forget_mapping_def
          saveChatMapping_def started_def initialize_def bridge_constructor_def truthy_def
          new_chat_doc_def all_ok_def map_get_def map_delete_def Let_def)
  from a b c d show ?thesis by blast
qed

text \<open>
  The rest of the stale-mapping recovery, as the code has it. When the topic has no
  cached verdict and Telegram reports it missing, \<^verbatim>\<open>sendSimpleMessage\<close> sends nothing and
  returns \<^verbatim>\<open>null\<close>, the mapping of the thread is gone from \<^verbatim>\<open>chatMappings\<close> and its document
  is deleted from the collection, and the verdict is cached. The next
  \<^verbatim>\<open>getOrCreateTopic\<close> for the thread creates a topic again.
\<close>

theorem stale_mapping_forgotten_then_recreated:
  "map_get (topicVerificationCache b) (KNumber topic) = None \<and> get_chat e = ChatNotFound \<and>
   collection b = Some docs \<and> db_delete_ok e \<and>
   telegramChatId b \<noteq> None \<and> map_get (creatingTopics b) thread = None \<and>
   create_topic e' = Some topic'
   \<longrightarrow> (case sendSimpleMessage b e topic body thread of
          (r, b1, fx) \<Rightarrow>
            r = None \<and> fx = [] \<and>
            map_get (chatMappings b1) thread = None \<and>
            collection b1 = Some (delete_chat docs thread) \<and>
            map_get (topicVerificationCache b1) (KNumber topic) = Some False \<and>
            fst (getOrCreateTopic b1 e' thread sender) = Some topic' \<and>
            TgCreateTopic (topic_name b1 thread sender)
              \<in> set (snd (snd (getOrCreateTopic b1 e' thread sender))))"
  by (auto simp: sendSimpleMessage_def verifyTopicExists_def forget_mapping_def Let_def
        getOrCreateTopic_def map_get_delete map_get_set
        split: option.splits)

theorem stale_mapping_forgotten_then_recreated_witness:
  "(case sendSimpleMessage (started [Chat (new_chat_doc (all_ok 1 5) ''t1'' 5 None)])
          ((all_ok 9 5)\<lparr>get_chat := ChatNotFound\<rparr>) 5 ''first'' ''t1'' of
      (r, b1, fx) \<Rightarrow>
        r = None \<and> fx = [] \<and> chatMappings b1 = [] \<and> collection b1 = Some [] \<and>
        fst (getOrCreateTopic b1 (all_ok 10 6) ''t1'' (Some ''42'')) = Some 6)"
proof -
  let ?b = "started [Chat (new_chat_doc (all_ok 1 5) ''t1'' 5 None)]"
  let ?e = "(all_ok 9 5)\<lparr>get_chat := ChatNotFound\<rparr>"
  have pre: "map_get (topicVerificationCache ?b) (KNumber 5) = None \<and> get_chat ?e = ChatNotFound \<and>
     collection ?b = Some [Chat (new_chat_doc (all_ok 1 5) ''t1'' 5 None)] \<and> db_delete_ok ?e \<and>
     telegramChatId ?b \<noteq> None \<and> map_get (creatingTopics ?b) ''t1'' = None \<and>
     create_topic (all_ok 10 6) = Some 6"
    by (simp add: started_def initialize_def bridge_constructor_def truthy_def all_ok_def
          map_get_def new_chat_doc_def)
  have cm: "chatMappings (fst (snd (sendSimpleMessage ?b ?e 5 ''first'' ''t1''))) = []"
    by (simp add: sendSimpleMessage_def verifyTopicExists_def forget_mapping_def Let_def
          started_def initialize_def bridge_constructor_def truthy_def all_ok_def
          map_get_def map_delete_def new_chat_doc_def)
  show ?thesis
    using stale_mapping_forgotten_then_recreated
            [where b = ?b and topic = 5 and e = ?e
               and docs = "[Chat (new_chat_doc (all_ok 1 5) ''t1'' 5 None)]"
               and thread = "''t1''" and e' = "all_ok 10 6" and topic' = 6
               and body = "''first''" and sender = "Some ''42''"] pre cm
    by (auto simp: new_chat_doc_def split: prod.splits)
qed

section \<open>Properties of shutdown and of the voice conversion\<close>

text \<open>
  Claim C8 as stated fails: \<^verbatim>\<open>shutdown\<close> does not look at \<^verbatim>\<open>creatingTopics\<close>. Here a
  creation for thread \<open>t1\<close> is in flight when \<^verbatim>\<open>shutdown\<close> runs, and it is still in flight
  when \<^verbatim>\<open>shutdown\<close> has completed.
\<close>

theorem shutdown_awaits_creations_counterexample:
  "in_flight ((started [])\<lparr>creatingTopics := [(''t1'', Pending)]\<rparr>) = [''t1''] \<and>
   in_flight (shutdown ((started [])\<lparr>creatingTopics := [(''t1'', Pending)]\<rparr>) (all_ok 10 5))
     \<noteq> []"
  by (simp add: in_flight_def shutdown_def started_def initialize_def bridge_constructor_def
        truthy_def all_ok_def)

text \<open>
  Claim C8, amended. \<^verbatim>\<open>shutdown\<close> stops the polling of the bot, if there is a bot and
  \<^verbatim>\<open>stopPolling\<close> succeeds, and empties the temporary directory, if \<^verbatim>\<open>emptyDir\<close> succeeds.
  It changes nothing else: the creations in flight are the same after it as before, and
  so are the mappings and the collection.
\<close>

theorem shutdown_stops_polling_and_clears_temp:
  "(telegramBot b \<noteq> None \<and> stop_polling_ok e \<longrightarrow> telegramBot (shutdown b e) = Some False) \<and>
   (empty_dir_ok e \<longrightarrow> tempDir (shutdown b e) = []) \<and>
   creatingTopics (shutdown b e) = creatingTopics b \<and>
   in_flight (shutdown b e) = in_flight b \<and>
   chatMappings (shutdown b e) = chatMappings b \<and>
   collection (shutdown b e) = collection b"
  by (auto simp: shutdown_def in_flight_def Let_def split: option.splits)

theorem shutdown_stops_polling_and_clears_temp_witness:
  "telegramBot ((started [])\<lparr>tempDir := [VoiceOgg 3]\<rparr>) \<noteq> None \<and>
   stop_polling_ok (all_ok 10 5) \<and> empty_dir_ok (all_ok 10 5) \<and>
   telegramBot (shutdown ((started [])\<lparr>tempDir := [VoiceOgg 3]\<rparr>) (all_ok 10 5)) = Some False \<and>
   tempDir (shutdown ((started [])\<lparr>tempDir := [VoiceOgg 3]\<rparr>) (all_ok 10 5)) = []"
proof -
  have pre: "telegramBot ((started [])\<lparr>tempDir := [VoiceOgg 3]\<rparr>) \<noteq> None \<and>
             stop_polling_ok (all_ok 10 5) \<and> empty_dir_ok (all_ok 10 5)"
    by (simp add: started_def initialize_def bridge_constructor_def truthy_def all_ok_def)
  show ?thesis
    using shutdown_stops_polling_and_clears_temp
            [of "(started [])\<lparr>tempDir := [VoiceOgg 3]\<rparr>" "all_ok 10 5"] pre
    by simp
qed

text \<open>
  Claim C6 against the code: \<^verbatim>\<open>handleTelegramVoice\<close> unlinks its two files only after a
  successful send. When the download has succeeded and the transcoder fails, the
  downloaded file is still in the temporary directory when the handler returns, and so
  is the partial output if the transcoder left one; the same holds when the send fails
  after a successful conversion.
\<close>

theorem handleTelegramVoice_leaves_files_on_failure:
  "set_has (tempDir (fst (handleTelegramVoice b
       (e\<lparr>download_ok := True, transcode := TranscodeFailed partial\<rparr>) msg thread)))
     (VoiceOgg (now e)) \<and>
   set_has (tempDir (fst (handleTelegramVoice b
       (e\<lparr>download_ok := True, transcode := TranscodeFailed True\<rparr>) msg thread)))
     (VoiceM4a (now_later e)) \<and>
   set_has (tempDir (fst (handleTelegramVoice b
       (e\<lparr>download_ok := True, transcode := TranscodeOk, voice_sent := False\<rparr>) msg thread)))
     (VoiceOgg (now e)) \<and>
   tempDir (fst (handleTelegramVoice (started [])
       ((all_ok 10 5)\<lparr>transcode := TranscodeFailed True\<rparr>)
       \<lparr>tm_chat_id = -100, tm_message_id = 7, tm_thread_id = 5, tm_text = None,
        tm_media = Some Voice\<rparr> ''t1'')) = [VoiceOgg 10, VoiceM4a 11]"
  by (simp add: handleTelegramVoice_def set_has_def set_add_def Let_def started_def
        initialize_def bridge_constructor_def truthy_def all_ok_def)

section \<open>Properties of the two pipelines\<close>

lemma saveUserMapping_frame:
  "filters (saveUserMapping b e uid u) = filters b"
  "chatMappings (saveUserMapping b e uid u) = chatMappings b"
  "topicVerificationCache (saveUserMapping b e uid u) = topicVerificationCache b"
  by (simp_all add: saveUserMapping_def split: option.splits)


lemma count_sender_frame:
  "filters (count_sender b e m uid) = filters b"
  "chatMappings (count_sender b e m uid) = chatMappings b"
  "topicVerificationCache (count_sender b e m uid) = topicVerificationCache b"
  by (simp_all add: count_sender_def saveUserMapping_frame Let_def split: option.splits)









lemma getOrCreateTopic_no_tg_sends:
  "getOrCreateTopic b e t s = (r, b', fx) \<Longrightarrow> tg_sends fx = []"
  by (auto simp: getOrCreateTopic_def Let_def split: option.splits promise.splits if_splits)

lemma getOrCreateTopic_enhanced_no_tg_sends:
  "getOrCreateTopic_enhanced b e t s = (r, b', fx) \<Longrightarrow> tg_sends fx = []"
  by (auto simp: getOrCreateTopic_enhanced_def Let_def split: option.splits promise.splits if_splits)

lemma tg_sends_append: "tg_sends (fx @ fy) = tg_sends fx @ tg_sends fy"
  by (induction fx rule: tg_sends.induct) simp_all

lemma sendSimpleMessage_tg_sends:
  "sendSimpleMessage b e topic body thread = (r, b', fx) \<Longrightarrow> set (tg_sends fx) \<subseteq> {(topic, body)}"
  by (auto simp: sendSimpleMessage_def split: prod.splits bool.splits send_result.splits if_splits)

lemma sendSimpleMessage_enhanced_tg_sends:
  "sendSimpleMessage_enhanced b e topic body thread = (r, b', fx) \<Longrightarrow>
   set (tg_sends fx) \<subseteq> {(topic, body)}"
  by (auto simp: sendSimpleMessage_enhanced_def split: send_result.splits)

lemma sendSimpleMessage_verified:
  "fst (verifyTopicExists b e topic) \<Longrightarrow>
   tg_sends (snd (snd (sendSimpleMessage b e topic body thread))) = [(topic, body)]"
  by (auto simp: sendSimpleMessage_def split: prod.splits bool.splits send_result.splits)

lemma sendSimpleMessage_enhanced_sends:
  "tg_sends (snd (snd (sendSimpleMessage_enhanced b e topic body thread))) = [(topic, body)]"
  by (auto simp: sendSimpleMessage_enhanced_def split: send_result.splits)

lemma verifyTopicExists_cong:
  "topicVerificationCache b' = topicVerificationCache b \<Longrightarrow>
   fst (verifyTopicExists b' e topic) = fst (verifyTopicExists b e topic)"
  by (simp add: verifyTopicExists_def split: option.splits probe.splits)

lemma forward_text_unchanged:
  assumes ty: "im_type m = ''text''"
      and mem: "(topic, y) \<in> set (tg_sends (snd (sendToTelegram rt b e m)))"
  shows "y = im_text m"
proof (cases "telegramBot b = None \<or> \<not> enabled b")
  case True
  with mem show ?thesis by (auto simp: sendToTelegram_def)
next
  case False
  show ?thesis
  proof (cases "im_senderId m")
    case None
    with False mem show ?thesis by (auto simp: sendToTelegram_def)
  next
    case (Some uid)
    obtain r b2 fx where g:
      "getOrCreateTopic (count_sender b e m uid) e (im_threadId m) (im_senderId m) = (r, b2, fx)"
      by (metis prod_cases3)
    have d: "tg_sends fx = []" using getOrCreateTopic_no_tg_sends [OF g] .
    show ?thesis
    proof (cases r)
      case None
      with False Some g d mem show ?thesis by (auto simp: sendToTelegram_def Let_def)
    next
      case (Some t)
      obtain r3 b3 fx3 where s:
        "sendSimpleMessage b2 e t (im_text m) (im_threadId m) = (r3, b3, fx3)"
        by (metis prod_cases3)
      have sub: "set (tg_sends fx3) \<subseteq> {(t, im_text m)}"
        using sendSimpleMessage_tg_sends [OF s] .
      from False \<open>im_senderId m = Some uid\<close> g Some s ty d mem
      have "(topic, y) \<in> set (tg_sends fx3)"
        by (auto simp: sendToTelegram_def Let_def tg_sends_append split: option.splits if_splits)
      with sub show ?thesis by auto
    qed
  qed
qed

lemma forward_enhanced_text_unchanged:
  assumes ty: "im_type m = ''text''"
      and mem: "(topic, y) \<in> set (tg_sends (snd (sendToTelegram_enhanced rt b e mt m)))"
  shows "y = im_text m"
proof (cases "telegramBot b = None \<or> \<not> enabled b")
  case True
  with mem show ?thesis by (auto simp: sendToTelegram_enhanced_def)
next
  case False
  obtain r b2 fx where g:
    "getOrCreateTopic_enhanced b e (im_threadId m) (im_senderId m) = (r, b2, fx)"
    by (metis prod_cases3)
  have d: "tg_sends fx = []" using getOrCreateTopic_enhanced_no_tg_sends [OF g] .
  show ?thesis
  proof (cases r)
    case None
    with False g d mem show ?thesis by (auto simp: sendToTelegram_enhanced_def)
  next
    case (Some t)
    obtain r3 b3 fx3 where s:
      "sendSimpleMessage_enhanced b2 e t (im_text m) (im_threadId m) = (r3, b3, fx3)"
      by (metis prod_cases3)
    have sub: "set (tg_sends fx3) \<subseteq> {(t, im_text m)}"
      using sendSimpleMessage_enhanced_tg_sends [OF s] .
    from False g Some s ty d mem
    have "(topic, y) \<in> set (tg_sends fx3)"
      by (auto simp: sendToTelegram_enhanced_def tg_sends_append split: if_splits)
    with sub show ?thesis by auto
  qed
qed

lemma forward_text_sent:
  assumes bot: "telegramBot b \<noteq> None" "enabled b"
      and sender: "im_senderId m = Some uid"
      and mapped: "map_get (chatMappings b) (im_threadId m) = Some topic" "topic \<noteq> 0"
      and free: "blocked_by (filters b) (trim rt (toLowerCase rt (im_text m))) = None"
      and ty: "im_type m = ''text''"
      and ver: "fst (verifyTopicExists b e topic)"
  shows "tg_sends (snd (sendToTelegram rt b e m)) = [(topic, im_text m)]"
proof -
  let ?b1 = "count_sender b e m uid"
  have g: "getOrCreateTopic ?b1 e (im_threadId m) (im_senderId m) = (Some topic, ?b1, [])"
    using mapped by (simp add: getOrCreateTopic_def count_sender_frame)
  have v: "fst (verifyTopicExists ?b1 e topic)"
    using ver verifyTopicExists_cong [of ?b1 b e topic] by (simp add: count_sender_frame)
  have s: "tg_sends (snd (snd (sendSimpleMessage ?b1 e topic (im_text m) (im_threadId m))))
             = [(topic, im_text m)]"
    using v by (rule sendSimpleMessage_verified)
  show ?thesis
    using bot sender mapped(2) free ty g s
    by (auto simp: sendToTelegram_def Let_def count_sender_frame split: prod.splits)
qed

lemma forward_enhanced_text_sent:
  assumes bot: "telegramBot b \<noteq> None" "enabled b"
      and mapped: "map_get (chatMappings b) (im_threadId m) = Some topic" "topic \<noteq> 0"
      and ty: "im_type m = ''text''"
  shows "tg_sends (snd (sendToTelegram_enhanced rt b e mt m)) = [(topic, im_text m)]"
proof -
  have g: "getOrCreateTopic_enhanced b e (im_threadId m) (im_senderId m) = (Some topic, b, [])"
    using mapped by (simp add: getOrCreateTopic_enhanced_def)
  show ?thesis
    using bot mapped(2) ty g
      sendSimpleMessage_enhanced_sends [of b e topic "im_text m" "im_threadId m"]
    by (auto simp: sendToTelegram_enhanced_def split: prod.splits)
qed

lemma instagram_sendMessage_ig_sends:
  "ig_sends (snd (instagram_sendMessage e thread body)) =
     (if thread = [] \<or> body = [] then [] else [(thread, body)])"
  by (simp add: instagram_sendMessage_def)

lemma ig_sends_append: "ig_sends (fx @ fy) = ig_sends fx @ ig_sends fy"
  by (induction fx rule: ig_sends.induct) simp_all

lemma reverse_text_sent:
  assumes th: "findInstagramThreadIdByTopic b (tm_thread_id msg) = Some thread" "thread \<noteq> []"
      and t: "tm_text msg = Some y" "y \<noteq> []"
      and free: "blocked_by (filters b) (toLowerCase rt (trim rt y)) = None"
  shows "ig_sends (handleTelegramMessage rt b e msg) =
           (if trim rt y = [] then [] else [(thread, trim rt y)])"
  using assms
  by (auto simp: handleTelegramMessage_def Let_def truthy_def originalText_def
        instagram_sendMessage_def split: ig_result.splits)

lemma reverse_enhanced_text_sent:
  assumes t: "tm_text msg = Some y" and th: "thread \<noteq> []"
  shows "ig_sends (handleTelegramText rt e msg thread) =
           (if trim rt y = [] then [] else [(thread, trim rt y)])"
  using assms
  by (auto simp: handleTelegramText_def instagram_sendMessage_def split: ig_result.splits)

lemma reverse_text_trimmed:
  assumes t: "tm_text msg = Some y" and ne: "y \<noteq> []"
      and mem: "(thread, z) \<in> set (ig_sends (handleTelegramMessage rt b e msg))"
  shows "z = trim rt y"
  using assms
  by (auto simp: handleTelegramMessage_def Let_def truthy_def instagram_sendMessage_def
        originalText_def
        split: option.splits if_splits ig_result.splits prod.splits)

lemma reverse_enhanced_text_trimmed:
  assumes t: "tm_text msg = Some y"
      and mem: "(thread, z) \<in> set (ig_sends (handleTelegramText rt e msg thread'))"
  shows "z = trim rt y"
  using assms
  by (auto simp: handleTelegramText_def instagram_sendMessage_def
        split: if_splits ig_result.splits prod.splits)

text \<open>
  Claim C7 as stated fails: the reverse pipeline trims the text before it sends it. The
  text \<open>'' hi''\<close> reaches Telegram as it is, and from Telegram it reaches Instagram as
  \<open>''hi''\<close>, in the bridge of part_001 and in the enhanced bridge alike.
\<close>

theorem text_round_trip_counterexample:
  "tg_sends (snd (sendToTelegram ascii_runtime
       (started [Chat (new_chat_doc (all_ok 1 5) ''t1'' 5 None)]) (all_ok 10 5)
       \<lparr>im_threadId = ''t1'', im_senderId = Some ''42'', im_senderUsername = ''bob'',
        im_text = '' hi'', im_type = ''text''\<rparr>)) = [(5, '' hi'')] \<and>
   ig_sends (handleTelegramMessage ascii_runtime
       (started [Chat (new_chat_doc (all_ok 1 5) ''t1'' 5 None)]) (all_ok 11 5)
       \<lparr>tm_chat_id = -100, tm_message_id = 7, tm_thread_id = 5, tm_text = Some '' hi'',
        tm_media = None, tm_caption = None, tm_file_name = None, tm_file_size_kb = []\<rparr>)
     = [(''t1'', ''hi'')] \<and>
   ig_sends (handleTelegramText ascii_runtime (all_ok 11 5)
       \<lparr>tm_chat_id = -100, tm_message_id = 7, tm_thread_id = 5, tm_text = Some '' hi'',
        tm_media = None\<rparr> ''t1'') = [(''t1'', ''hi'')] \<and>
   ''hi'' \<noteq> '' hi''"
  by (simp add: sendToTelegram_def count_sender_def getOrCreateTopic_def saveUserMapping_def
        sendSimpleMessage_def verifyTopicExists_def blocked_by_def
        handleTelegramMessage_def handleTelegramText_def instagram_sendMessage_def
        findInstagramThreadIdByTopic_def originalText_def
        started_def initialize_def bridge_constructor_def truthy_def
        new_chat_doc_def all_ok_def map_get_def Let_def
        ascii_runtime_def ascii_toLowerCase_def ascii_trim_def ascii_whitespace_def)

text \<open>
  Claim C7, amended. The forward send of a text message passes the text on unchanged:
  whatever the forward pipeline sends for a message of type text is its text, and for a
  thread with a topic, a sender, no blocked term and a verified topic it makes exactly one
  send, of the text to the topic. The reverse send of a non-empty text \<open>y\<close> passes on
  \<open>trim y\<close>: for a topic with a thread and no blocked term it makes exactly one send, of the
  trimmed text, and no send at all when the trimmed text is empty (\<^verbatim>\<open>sendMessage\<close> throws on
  an empty text). So a text that goes from Instagram to Telegram and back arrives
  trimmed, and arrives identical exactly when trimming leaves it as it is. Conjuncts 1 to
  4: the bridge of part_001; conjuncts 5 to 7: the enhanced bridge. The statement holds
  for every runtime \<open>rt\<close>.
\<close>

theorem text_round_trip_trimmed:
  "(im_type m = ''text'' \<and> (topic_a, ya) \<in> set (tg_sends (snd (sendToTelegram rt b e m)))
      \<longrightarrow> ya = im_text m) \<and>
   (telegramBot b \<noteq> None \<and> enabled b \<and> im_senderId m \<noteq> None \<and>
    map_get (chatMappings b) (im_threadId m) = Some topic \<and> topic \<noteq> 0 \<and>
    blocked_by (filters b) (trim rt (toLowerCase rt (im_text m))) = None \<and>
    im_type m = ''text'' \<and> fst (verifyTopicExists b e topic)
      \<longrightarrow> tg_sends (snd (sendToTelegram rt b e m)) = [(topic, im_text m)]) \<and>
   (tm_text msg = Some y \<and> y \<noteq> [] \<and>
    (thread_a, za) \<in> set (ig_sends (handleTelegramMessage rt br er msg))
      \<longrightarrow> za = trim rt y) \<and>
   (findInstagramThreadIdByTopic br (tm_thread_id msg) = Some thread \<and> thread \<noteq> [] \<and>
    tm_text msg = Some y \<and> y \<noteq> [] \<and>
    blocked_by (filters br) (toLowerCase rt (trim rt y)) = None
      \<longrightarrow> ig_sends (handleTelegramMessage rt br er msg) =
            (if trim rt y = [] then [] else [(thread, trim rt y)]) \<and>
          (ig_sends (handleTelegramMessage rt br er msg) = [(thread, y)]) = (trim rt y = y)) \<and>
   (im_type m = ''text'' \<and>
    (topic_a, ya) \<in> set (tg_sends (snd (sendToTelegram_enhanced rt b e media_text m)))
      \<longrightarrow> ya = im_text m) \<and>
   (telegramBot b \<noteq> None \<and> enabled b \<and>
    map_get (chatMappings b) (im_threadId m) = Some topic \<and> topic \<noteq> 0 \<and>
    im_type m = ''text''
      \<longrightarrow> tg_sends (snd (sendToTelegram_enhanced rt b e media_text m)) = [(topic, im_text m)]) \<and>
   (tm_text tmsg = Some y \<and> y \<noteq> [] \<and> thread \<noteq> []
      \<longrightarrow> ig_sends (handleTelegramText rt er tmsg thread) =
            (if trim rt y = [] then [] else [(thread, trim rt y)]) \<and>
          (ig_sends (handleTelegramText rt er tmsg thread) = [(thread, y)]) = (trim rt y = y))"
proof -
  have c1: "im_type m = ''text'' \<and> (topic_a, ya) \<in> set (tg_sends (snd (sendToTelegram rt b e m)))
              \<longrightarrow> ya = im_text m"
    using forward_text_unchanged [of m topic_a ya rt b e] by blast
  have c2: "telegramBot b \<noteq> None \<and> enabled b \<and> im_senderId m \<noteq> None \<and>
            map_get (chatMappings b) (im_threadId m) = Some topic \<and> topic \<noteq> 0 \<and>
            blocked_by (filters b) (trim rt (toLowerCase rt (im_text m))) = None \<and>
            im_type m = ''text'' \<and> fst (verifyTopicExists b e topic)
              \<longrightarrow> tg_sends (snd (sendToTelegram rt b e m)) = [(topic, im_text m)]"
  proof (intro impI, elim conjE)
    assume h: "telegramBot b \<noteq> None" "enabled b" "im_senderId m \<noteq> None"
      "map_get (chatMappings b) (im_threadId m) = Some topic" "topic \<noteq> 0"
      "blocked_by (filters b) (trim rt (toLowerCase rt (im_text m))) = None"
      "im_type m = ''text''" "fst (verifyTopicExists b e topic)"
    from h(3) obtain uid where u: "im_senderId m = Some uid" by auto
    show "tg_sends (snd (sendToTelegram rt b e m)) = [(topic, im_text m)]"
      using h(1,2) u h(4,5,6,7,8) by (rule forward_text_sent)
  qed
  have c3: "tm_text msg = Some y \<and> y \<noteq> [] \<and>
            (thread_a, za) \<in> set (ig_sends (handleTelegramMessage rt br er msg))
              \<longrightarrow> za = trim rt y"
    using reverse_text_trimmed [of msg y thread_a za rt br er] by blast
  have c4: "findInstagramThreadIdByTopic br (tm_thread_id msg) = Some thread \<and> thread \<noteq> [] \<and>
            tm_text msg = Some y \<and> y \<noteq> [] \<and>
            blocked_by (filters br) (toLowerCase rt (trim rt y)) = None
              \<longrightarrow> ig_sends (handleTelegramMessage rt br er msg) =
                    (if trim rt y = [] then [] else [(thread, trim rt y)]) \<and>
                  (ig_sends (handleTelegramMessage rt br er msg) = [(thread, y)])
                    = (trim rt y = y)"
  proof (intro impI, elim conjE)
    assume h: "findInstagramThreadIdByTopic br (tm_thread_id msg) = Some thread"
      "thread \<noteq> []" "tm_text msg = Some y" "y \<noteq> []"
      "blocked_by (filters br) (toLowerCase rt (trim rt y)) = None"
    show "ig_sends (handleTelegramMessage rt br er msg) =
            (if trim rt y = [] then [] else [(thread, trim rt y)]) \<and>
          (ig_sends (handleTelegramMessage rt br er msg) = [(thread, y)]) = (trim rt y = y)"
      using reverse_text_sent [OF h, of er] h(4) by auto
  qed
  have c5: "im_type m = ''text'' \<and>
            (topic_a, ya) \<in> set (tg_sends (snd (sendToTelegram_enhanced rt b e media_text m)))
              \<longrightarrow> ya = im_text m"
    using forward_enhanced_text_unchanged [of m topic_a ya rt b e media_text] by blast
  have c6: "telegramBot b \<noteq> None \<and> enabled b \<and>
            map_get (chatMappings b) (im_threadId m) = Some topic \<and> topic \<noteq> 0 \<and>
            im_type m = ''text''
              \<longrightarrow> tg_sends (snd (sendToTelegram_enhanced rt b e media_text m))
                    = [(topic, im_text m)]"
  proof (intro impI, elim conjE)
    assume h: "telegramBot b \<noteq> None" "enabled b"
      "map_get (chatMappings b) (im_threadId m) = Some topic" "topic \<noteq> 0"
      "im_type m = ''text''"
    show "tg_sends (snd (sendToTelegram_enhanced rt b e media_text m)) = [(topic, im_text m)]"
      using h by (rule forward_enhanced_text_sent)
  qed
  have c7: "tm_text tmsg = Some y \<and> y \<noteq> [] \<and> thread \<noteq> []
              \<longrightarrow> ig_sends (handleTelegramText rt er tmsg thread) =
                    (if trim rt y = [] then [] else [(thread, trim rt y)]) \<and>
                  (ig_sends (handleTelegramText rt er tmsg thread) = [(thread, y)])
                    = (trim rt y = y)"
  proof (intro impI, elim conjE)
    assume h: "tm_text tmsg = Some y" "y \<noteq> []" "thread \<noteq> []"
    show "ig_sends (handleTelegramText rt er tmsg thread) =
            (if trim rt y = [] then [] else [(thread, trim rt y)]) \<and>
          (ig_sends (handleTelegramText rt er tmsg thread) = [(thread, y)]) = (trim rt y = y)"
      using reverse_enhanced_text_sent [OF h(1) h(3), of rt er] h(2) by auto
  qed
  show ?thesis
    by (intro conjI) (rule c1, rule c2, rule c3, rule c4, rule c5, rule c6, rule c7)
qed

theorem text_round_trip_trimmed_witness:
  "tg_sends (snd (sendToTelegram ascii_runtime
       (started [Chat (new_chat_doc (all_ok 1 5) ''t1'' 5 None)]) (all_ok 10 5)
       \<lparr>im_threadId = ''t1'', im_senderId = Some ''42'', im_senderUsername = ''bob'',
        im_text = ''hello'', im_type = ''text''\<rparr>)) = [(5, ''hello'')] \<and>
   trim ascii_runtime ''hello'' = ''hello'' \<and>
   ig_sends (handleTelegramMessage ascii_runtime
       (started [Chat (new_chat_doc (all_ok 1 5) ''t1'' 5 None)]) (all_ok 11 5)
       \<lparr>tm_chat_id = -100, tm_message_id = 7, tm_thread_id = 5, tm_text = Some ''hello'',
        tm_media = None, tm_caption = None, tm_file_name = None, tm_file_size_kb = []\<rparr>)
     = [(''t1'', ''hello'')] \<and>
   tg_sends (snd (sendToTelegram_enhanced ascii_runtime
       (started [Chat (new_chat_doc (all_ok 1 5) ''t1'' 5 None)]) (all_ok 10 5) ''[Photo]''
       \<lparr>im_threadId = ''t1'', im_senderId = Some ''42'', im_senderUsername = ''bob'',
        im_text = ''hello'', im_type = ''text''\<rparr>)) = [(5, ''hello'')] \<and>
   ig_sends (handleTelegramText ascii_runtime (all_ok 11 5)
       \<lparr>tm_chat_id = -100, tm_message_id = 7, tm_thread_id = 5, tm_text = Some ''hello'',
        tm_media = None\<rparr> ''t1'') = [(''t1'', ''hello'')]"
proof -
  let ?b = "started [Chat (new_chat_doc (all_ok 1 5) ''t1'' 5 None)]"
  let ?m = "\<lparr>im_threadId = ''t1'', im_senderId = Some ''42'', im_senderUsername = ''bob'',
        im_text = ''hello'', im_type = ''text''\<rparr>"
  let ?msg = "\<lparr>tm_chat_id = -100, tm_message_id = 7, tm_thread_id = 5, tm_text = Some ''hello'',
        tm_media = None, tm_caption = None, tm_file_name = None, tm_file_size_kb = []\<rparr>"
  let ?tmsg = "\<lparr>tm_chat_id = -100, tm_message_id = 7, tm_thread_id = 5,
        tm_text = Some ''hello'', tm_media = None\<rparr>"
  have st: "telegramBot ?b \<noteq> None" "enabled ?b" "chatMappings ?b = [(''t1'', 5)]"
      "filters ?b = []" "topicVerificationCache ?b = []"
    by (simp_all add: started_def initialize_def bridge_constructor_def truthy_def
          new_chat_doc_def all_ok_def)
  have h1: "im_senderId ?m \<noteq> None" "im_type ?m = ''text''"
    "map_get (chatMappings ?b) (im_threadId ?m) = Some 5"
    by (simp_all add: st map_get_def)
  have h2: "blocked_by (filters ?b)
              (trim ascii_runtime (toLowerCase ascii_runtime (im_text ?m))) = None"
    "blocked_by (filters ?b) (toLowerCase ascii_runtime (trim ascii_runtime ''hello'')) = None"
    by (simp_all add: st blocked_by_def)
  have gc: "get_chat (all_ok 10 5) = ChatFound" by (simp add: all_ok_def)
  have h3: "fst (verifyTopicExists ?b (all_ok 10 5) 5)"
    by (simp add: verifyTopicExists_def st map_get_def gc)
  have h4: "findInstagramThreadIdByTopic ?b (tm_thread_id ?msg) = Some ''t1''"
    by (simp add: findInstagramThreadIdByTopic_def st)
  have h5: "tm_text ?msg = Some ''hello''" "tm_text ?tmsg = Some ''hello''" by simp_all
  have h6: "trim ascii_runtime ''hello'' = ''hello''"
    by (simp add: ascii_runtime_def ascii_trim_def ascii_whitespace_def)
  have h7: "(5::int) \<noteq> 0" "''hello'' \<noteq> []" "''t1'' \<noteq> []" by simp_all
  note rt = text_round_trip_trimmed
            [where m = ?m and rt = ascii_runtime and b = ?b and e = "all_ok 10 5"
               and topic = 5 and msg = ?msg and y = "''hello''" and br = ?b
               and er = "all_ok 11 5" and thread = "''t1''" and tmsg = ?tmsg
               and media_text = "''[Photo]''"]
  have a: "tg_sends (snd (sendToTelegram ascii_runtime ?b (all_ok 10 5) ?m)) = [(5, im_text ?m)]"
    by (rule rt [THEN conjunct2, THEN conjunct1, THEN mp])
       (intro conjI st(1) st(2) h1 h2(1) h3 h7(1))
  have b: "ig_sends (handleTelegramMessage ascii_runtime ?b (all_ok 11 5) ?msg) =
             (if trim ascii_runtime ''hello'' = [] then []
              else [(''t1'', trim ascii_runtime ''hello'')])"
    by (rule rt [THEN conjunct2, THEN conjunct2, THEN conjunct2, THEN conjunct1, THEN mp,
                 THEN conjunct1])
       (intro conjI h4 h5(1) h2(2) h7(2) h7(3))
  have c: "tg_sends (snd (sendToTelegram_enhanced ascii_runtime ?b (all_ok 10 5) ''[Photo]'' ?m))
             = [(5, im_text ?m)]"
    by (rule rt [THEN conjunct2, THEN conjunct2, THEN conjunct2, THEN conjunct2, THEN conjunct2,
                 THEN conjunct1, THEN mp])
       (intro conjI st(1) st(2) h1 h7(1))
  have d: "ig_sends (handleTelegramText ascii_runtime (all_ok 11 5) ?tmsg ''t1'') =
             (if trim ascii_runtime ''hello'' = [] then []
              else [(''t1'', trim ascii_runtime ''hello'')])"
    by (rule rt [THEN conjunct2, THEN conjunct2, THEN conjunct2, THEN conjunct2, THEN conjunct2,
                 THEN conjunct2, THEN mp, THEN conjunct1])
       (intro conjI h5(2) h7(2) h7(3))
  have im: "im_text ?m = ''hello''" by simp
  show ?thesis
    unfolding a b c d h6 im by simp
qed

text \<open>
  The media handler of the reverse pipeline: a message without text goes to
  \<^verbatim>\<open>handleTelegramMedia\<close>; a failed download ends with the failure reaction and no send; a
  photo with a caption is broadcast and the caption follows as a text message; a
  document is sent as its line of file information; a voice note is broadcast and the
  reaction follows the result.
\<close>

lemma handleTelegramMedia_download_failed:
  "\<not> download_ok e \<Longrightarrow>
   handleTelegramMedia e msg kind thread =
     [SetReaction (tm_message_id msg) Processing, SetReaction (tm_message_id msg) Failure]"
  by (simp add: handleTelegramMedia_def)

lemma handleTelegramMedia_photo_caption:
  assumes "download_ok e" "ig_broadcast e = IgSent" "ig_send e \<noteq> IgThrew" "thread \<noteq> []"
      and "tm_caption msg = Some c" "c \<noteq> []"
  shows "handleTelegramMedia e msg Photo thread =
           [SetReaction (tm_message_id msg) Processing, IgSendMedia thread Photo,
            IgSendMessage thread c, SetReaction (tm_message_id msg) Success]"
  using assms
  by (simp add: handleTelegramMedia_def broadcast_then_caption_def instagram_sendMessage_def
        split: ig_result.splits)

lemma handleTelegramMedia_document:
  assumes "download_ok e" "ig_send e = IgSent" "thread \<noteq> []" "tm_caption msg = None"
  shows "handleTelegramMedia e msg Document thread =
           [SetReaction (tm_message_id msg) Processing,
            IgSendMessage thread (fileInfo msg @ [CHR 0x0A]),
            SetReaction (tm_message_id msg) Success]"
  using assms
  by (simp add: handleTelegramMedia_def instagram_sendMessage_def)

lemma handleTelegramMedia_voice:
  assumes "download_ok e"
  shows "handleTelegramMedia e msg Voice thread =
           [SetReaction (tm_message_id msg) Processing, IgSendMedia thread Voice,
            SetReaction (tm_message_id msg) (if ig_broadcast e = IgSent then Success else Failure)]"
  using assms
  by (simp add: handleTelegramMedia_def split: ig_result.splits)

lemma handleTelegramMessage_media:
  assumes "findInstagramThreadIdByTopic b (tm_thread_id msg) = Some thread" "thread \<noteq> []"
      and "tm_text msg = None" "tm_media msg = Some kind"
      and "blocked_by (filters b) (toLowerCase rt []) = None"
  shows "handleTelegramMessage rt b e msg = handleTelegramMedia e msg kind thread"
  using assms
  by (simp add: handleTelegramMessage_def originalText_def truthy_def)

section \<open>Single-flight of the topic mapper\<close>

lemma set_phase_simps:
  "length (creations (set_phase s p ph)) = length (creations s)"
  "chatMappings_mp (set_phase s p ph) = chatMappings_mp s"
  "creatingTopics_mp (set_phase s p ph) = creatingTopics_mp s"
  "calls (set_phase s p ph) = calls s"
  "chat_id_missing (set_phase s p ph) = chat_id_missing s"
  by (simp_all add: set_phase_def)

lemma set_phase_nth:
  "q < length (creations s) \<Longrightarrow>
   cr_thread (creations (set_phase s p ph) ! q) = cr_thread (creations s ! q) \<and>
   cr_phase (creations (set_phase s p ph) ! q) = (if q = p then ph else cr_phase (creations s ! q))"
  by (simp add: set_phase_def nth_list_update)

lemma flights_iff: "p \<in> set (flights s t) \<longleftrightarrow> in_flight_for s t p"
  by (auto simp: flights_def in_flight_for_def)

lemma inv_init: "mapper_inv (mapper_init loaded missing)"
  by (simp add: mapper_inv_def inv_entry_def inv_cache_def inv_calls_def mapper_init_def in_flight_for_def)

lemma inv_forget:
  assumes "mapper_inv s"
  shows "mapper_inv (s\<lparr>chatMappings_mp := map_delete (chatMappings_mp s) t\<rparr>)"
  using assms
  by (auto simp: mapper_inv_def inv_entry_def inv_cache_def inv_calls_def in_flight_for_def
        served_by_def map_get_delete)

lemma in_flight_set_phase:
  "in_flight_for (set_phase s p ph) t q \<longleftrightarrow>
     q < length (creations s) \<and> cr_thread (creations s ! q) = t \<and>
     \<not> settled (if q = p then ph else cr_phase (creations s ! q))"
  by (auto simp: in_flight_for_def set_phase_simps set_phase_nth)

lemma in_flight_creating_update [simp]:
  "in_flight_for (s\<lparr>creatingTopics_mp := m\<rparr>) t q = in_flight_for s t q"
  "in_flight_for (s\<lparr>chatMappings_mp := cm\<rparr>) t q = in_flight_for s t q"
  "in_flight_for (s\<lparr>calls := cs\<rparr>) t q = in_flight_for s t q"
  by (simp_all add: in_flight_for_def)

lemma served_by_update [simp]:
  "served_by (s\<lparr>creatingTopics_mp := m\<rparr>) c q = served_by s c q"
  "served_by (s\<lparr>chatMappings_mp := cm\<rparr>) c q = served_by s c q"
  "served_by (s\<lparr>calls := cs\<rparr>) c q = served_by s c q"
  by (simp_all add: served_by_def)

lemma inv_topic_created:
  assumes i: "mapper_inv s" and ph: "phase_of s p = Some Creating"
  shows "mapper_inv (set_phase s p (Created topic))"
proof -
  from ph have p: "p < length (creations s)" "cr_phase (creations s ! p) = Creating"
    by (auto simp: phase_of_def split: if_splits)
  have fl: "in_flight_for (set_phase s p (Created topic)) t q \<longleftrightarrow> in_flight_for s t q" for t q
    using p by (auto simp: in_flight_for_def set_phase_simps set_phase_nth split: if_splits)
  have e: "inv_entry (set_phase s p (Created topic))"
    using i by (simp add: mapper_inv_def inv_entry_def fl set_phase_simps)
  have c: "inv_cache (set_phase s p (Created topic))"
    unfolding inv_cache_def
  proof (intro allI impI)
    fix t q assume "in_flight_for (set_phase s p (Created topic)) t q"
    then have f: "in_flight_for s t q" by (simp add: fl)
    then have q: "q < length (creations s)" by (simp add: in_flight_for_def)
    from i f have "map_get (chatMappings_mp s) t = None \<or>
        (\<exists>topic. cr_phase (creations s ! q) = Saved topic \<and> map_get (chatMappings_mp s) t = Some topic)"
      by (simp add: mapper_inv_def inv_cache_def)
    then show "map_get (chatMappings_mp (set_phase s p (Created topic))) t = None \<or>
        (\<exists>topica. cr_phase (creations (set_phase s p (Created topic)) ! q) = Saved topica \<and>
          map_get (chatMappings_mp (set_phase s p (Created topic))) t = Some topica)"
      using p q by (auto simp: set_phase_simps set_phase_nth split: if_splits)
  qed
  have k: "inv_calls (set_phase s p (Created topic))"
    unfolding inv_calls_def
  proof (intro ballI)
    fix c q assume "c \<in> set (calls (set_phase s p (Created topic)))" "q \<in> set (c_flights c)"
    with i have "served_by s c q"
      by (simp add: mapper_inv_def inv_calls_def set_phase_simps)
    then show "served_by (set_phase s p (Created topic)) c q"
      using p by (auto simp: served_by_def set_phase_simps set_phase_nth split: if_splits)
  qed
  from e c k show ?thesis by (simp add: mapper_inv_def)
qed

lemma in_flight_unique:
  assumes "mapper_inv s" "in_flight_for s t p" "in_flight_for s t q"
  shows "p = q"
proof -
  from assms(1) have e: "inv_entry s" by (simp add: mapper_inv_def)
  from e assms(2) have "map_get (creatingTopics_mp s) t = Some p" unfolding inv_entry_def by blast
  moreover from e assms(3) have "map_get (creatingTopics_mp s) t = Some q" unfolding inv_entry_def by blast
  ultimately show ?thesis by simp
qed

text \<open>The creation \<open>p\<close> settles: its entry is deleted and no other creation of its thread is in flight.\<close>

lemma inv_settle:
  assumes i: "mapper_inv s"
      and p: "p < length (creations s)" "\<not> settled (cr_phase (creations s ! p))"
      and ok: "cr_phase (creations s ! p) = Saved topic \<and> r = Some topic \<or>
               cr_phase (creations s ! p) = Creating \<and> r = None"
  shows "mapper_inv ((set_phase s p (Settled r))
                      \<lparr>creatingTopics_mp := map_delete (creatingTopics_mp s) (cr_thread (creations s ! p))\<rparr>)"
proof -
  let ?s' = "(set_phase s p (Settled r))
               \<lparr>creatingTopics_mp := map_delete (creatingTopics_mp s) (cr_thread (creations s ! p))\<rparr>"
  have pf: "in_flight_for s (cr_thread (creations s ! p)) p"
    using p by (simp add: in_flight_for_def)
  have fl: "in_flight_for (set_phase s p (Settled r)) t q \<longleftrightarrow> in_flight_for s t q \<and> q \<noteq> p"
    for t q
    using p by (auto simp: in_flight_for_def set_phase_simps set_phase_nth split: if_splits)
  have other: "t \<noteq> cr_thread (creations s ! p)" if "in_flight_for s t q" "q \<noteq> p" for t q
  proof
    assume "t = cr_thread (creations s ! p)"
    with that(1) pf i have "q = p"
      using in_flight_unique by blast
    with that(2) show False by simp
  qed
  have e: "inv_entry ?s'"
    unfolding inv_entry_def
  proof (intro allI impI)
    fix t q assume "in_flight_for ?s' t q"
    then have f: "in_flight_for s t q" and ne: "q \<noteq> p" by (simp_all add: fl)
    from f i have "map_get (creatingTopics_mp s) t = Some q"
      by (simp add: mapper_inv_def inv_entry_def)
    with other [OF f ne] show "map_get (creatingTopics_mp ?s') t = Some q"
      by (simp add: map_get_delete)
  qed
  have c: "inv_cache ?s'"
    unfolding inv_cache_def
  proof (intro allI impI)
    fix t q assume "in_flight_for ?s' t q"
    then have f: "in_flight_for s t q" and ne: "q \<noteq> p" by (simp_all add: fl)
    then have q: "q < length (creations s)" by (simp add: in_flight_for_def)
    from i f have "map_get (chatMappings_mp s) t = None \<or>
        (\<exists>topic. cr_phase (creations s ! q) = Saved topic \<and> map_get (chatMappings_mp s) t = Some topic)"
      by (simp add: mapper_inv_def inv_cache_def)
    then show "map_get (chatMappings_mp ?s') t = None \<or>
        (\<exists>topica. cr_phase (creations ?s' ! q) = Saved topica \<and>
          map_get (chatMappings_mp ?s') t = Some topica)"
      using q ne by (auto simp: set_phase_simps set_phase_nth)
  qed
  have k: "inv_calls ?s'"
    unfolding inv_calls_def
  proof (intro ballI)
    fix c q assume "c \<in> set (calls ?s')" "q \<in> set (c_flights c)"
    with i have "served_by s c q"
      by (simp add: mapper_inv_def inv_calls_def set_phase_simps)
    then show "served_by ?s' c q"
      using p ok by (auto simp: served_by_def set_phase_simps set_phase_nth split: if_splits)
  qed
  from e c k show ?thesis by (simp add: mapper_inv_def)
qed

lemma inv_chat_saved:
  assumes i: "mapper_inv s" and ph: "phase_of s p = Some (Created topic)"
  shows "mapper_inv ((set_phase s p (Saved topic))
           \<lparr>chatMappings_mp := (if ok then map_set (chatMappings_mp s) (cr_thread (creations s ! p)) topic
                         else chatMappings_mp s)\<rparr>)"
proof -
  let ?s' = "(set_phase s p (Saved topic))
           \<lparr>chatMappings_mp := (if ok then map_set (chatMappings_mp s) (cr_thread (creations s ! p)) topic
                         else chatMappings_mp s)\<rparr>"
  from ph have p: "p < length (creations s)" "cr_phase (creations s ! p) = Created topic"
    by (auto simp: phase_of_def split: if_splits)
  have pf: "in_flight_for s (cr_thread (creations s ! p)) p"
    using p by (simp add: in_flight_for_def)
  have fl: "in_flight_for (set_phase s p (Saved topic)) t q \<longleftrightarrow> in_flight_for s t q" for t q
    using p by (auto simp: in_flight_for_def set_phase_simps set_phase_nth split: if_splits)
  have same: "q = p" if "in_flight_for s (cr_thread (creations s ! p)) q" for q
    using that pf i in_flight_unique by blast
  have e: "inv_entry ?s'"
    using i by (simp add: mapper_inv_def inv_entry_def fl set_phase_simps)
  have c: "inv_cache ?s'"
    unfolding inv_cache_def
  proof (intro allI impI)
    fix t q assume "in_flight_for ?s' t q"
    then have f: "in_flight_for s t q" by (simp add: fl)
    then have q: "q < length (creations s)" by (simp add: in_flight_for_def)
    from i f have old: "map_get (chatMappings_mp s) t = None \<or>
        (\<exists>topic. cr_phase (creations s ! q) = Saved topic \<and> map_get (chatMappings_mp s) t = Some topic)"
      by (simp add: mapper_inv_def inv_cache_def)
    show "map_get (chatMappings_mp ?s') t = None \<or>
        (\<exists>topica. cr_phase (creations ?s' ! q) = Saved topica \<and>
          map_get (chatMappings_mp ?s') t = Some topica)"
    proof (cases "t = cr_thread (creations s ! p)")
      case True
      with f have "q = p" using same by simp
      with True old p show ?thesis
        by (auto simp: set_phase_simps set_phase_nth map_get_set)
    next
      case False
      then have "q \<noteq> p" using f by (auto simp: in_flight_for_def)
      with False old q show ?thesis
        by (auto simp: set_phase_simps set_phase_nth map_get_set)
    qed
  qed
  have k: "inv_calls ?s'"
    unfolding inv_calls_def
  proof (intro ballI)
    fix c q assume "c \<in> set (calls ?s')" "q \<in> set (c_flights c)"
    with i have "served_by s c q"
      by (simp add: mapper_inv_def inv_calls_def set_phase_simps)
    then show "served_by ?s' c q"
      using p by (auto simp: served_by_def set_phase_simps set_phase_nth split: if_splits)
  qed
  from e c k show ?thesis by (simp add: mapper_inv_def)
qed

lemma inv_add_call:
  assumes i: "mapper_inv s" and sv: "\<forall>p \<in> set (c_flights c). served_by s c p"
  shows "mapper_inv (s\<lparr>calls := calls s @ [c]\<rparr>)"
  using assms
  by (auto simp: mapper_inv_def inv_entry_def inv_cache_def inv_calls_def)

lemma in_flight_append:
  "in_flight_for (s\<lparr>creations := creations s @ [cr]\<rparr>) t q \<longleftrightarrow>
     in_flight_for s t q \<or>
     (q = length (creations s) \<and> cr_thread cr = t \<and> \<not> settled (cr_phase cr))"
  by (auto simp: in_flight_for_def nth_append less_Suc_eq)

lemma served_by_append:
  "served_by s c q \<Longrightarrow> served_by (s\<lparr>creations := creations s @ [cr]\<rparr>) c q"
  by (auto simp: served_by_def nth_append)

lemma inv_new_creation:
  assumes i: "mapper_inv s"
      and none: "map_get (chatMappings_mp s) t = None" "map_get (creatingTopics_mp s) t = None"
  shows "mapper_inv
           (s\<lparr>creations := creations s @ [\<lparr>cr_thread = t, cr_phase = ph\<rparr>],
              creatingTopics_mp := map_set (creatingTopics_mp s) t (length (creations s)),
              calls := calls s @
                [\<lparr>c_thread = t, c_outcome = Awaiting (length (creations s)),
                  c_flights = (if settled ph then flights s t
                               else flights s t @ [length (creations s)])\<rparr>]\<rparr>)"
proof -
  let ?p = "length (creations s)"
  let ?cr = "\<lparr>cr_thread = t, cr_phase = ph\<rparr>"
  let ?s1 = "s\<lparr>creations := creations s @ [?cr]\<rparr>"
  have nofl: "\<not> in_flight_for s t q" for q
  proof
    assume "in_flight_for s t q"
    with i have "map_get (creatingTopics_mp s) t = Some q" by (simp add: mapper_inv_def inv_entry_def)
    with none show False by simp
  qed
  have fl_empty: "flights s t = []"
    using nofl by (auto simp: flights_def filter_empty_conv)
  have e: "inv_entry (?s1\<lparr>creatingTopics_mp := map_set (creatingTopics_mp s) t ?p\<rparr>)"
    unfolding inv_entry_def
  proof (intro allI impI)
    fix t' q assume "in_flight_for (?s1\<lparr>creatingTopics_mp := map_set (creatingTopics_mp s) t ?p\<rparr>) t' q"
    then have "in_flight_for s t' q \<or> (q = ?p \<and> t = t' \<and> \<not> settled ph)"
      by (simp add: in_flight_append)
    then show "map_get (creatingTopics_mp (?s1\<lparr>creatingTopics_mp := map_set (creatingTopics_mp s) t ?p\<rparr>)) t' = Some q"
    proof
      assume f: "in_flight_for s t' q"
      with nofl have "t' \<noteq> t" by auto
      moreover from i f have "map_get (creatingTopics_mp s) t' = Some q"
        by (simp add: mapper_inv_def inv_entry_def)
      ultimately show ?thesis by (simp add: map_get_set)
    next
      assume "q = ?p \<and> t = t' \<and> \<not> settled ph"
      then show ?thesis by (simp add: map_get_set)
    qed
  qed
  have c: "inv_cache (?s1\<lparr>creatingTopics_mp := map_set (creatingTopics_mp s) t ?p\<rparr>)"
    unfolding inv_cache_def
  proof (intro allI impI)
    fix t' q assume "in_flight_for (?s1\<lparr>creatingTopics_mp := map_set (creatingTopics_mp s) t ?p\<rparr>) t' q"
    then have "in_flight_for s t' q \<or> (q = ?p \<and> t = t' \<and> \<not> settled ph)"
      by (simp add: in_flight_append)
    then show "map_get (chatMappings_mp (?s1\<lparr>creatingTopics_mp := map_set (creatingTopics_mp s) t ?p\<rparr>)) t' = None \<or>
       (\<exists>topic. cr_phase (creations (?s1\<lparr>creatingTopics_mp := map_set (creatingTopics_mp s) t ?p\<rparr>) ! q) = Saved topic \<and>
          map_get (chatMappings_mp (?s1\<lparr>creatingTopics_mp := map_set (creatingTopics_mp s) t ?p\<rparr>)) t' = Some topic)"
    proof
      assume f: "in_flight_for s t' q"
      then have q: "q < length (creations s)" by (simp add: in_flight_for_def)
      from i f have "map_get (chatMappings_mp s) t' = None \<or>
        (\<exists>topic. cr_phase (creations s ! q) = Saved topic \<and> map_get (chatMappings_mp s) t' = Some topic)"
        by (simp add: mapper_inv_def inv_cache_def)
      with q show ?thesis by (auto simp: nth_append)
    next
      assume "q = ?p \<and> t = t' \<and> \<not> settled ph"
      with none show ?thesis by simp
    qed
  qed
  have k: "inv_calls (?s1\<lparr>creatingTopics_mp := map_set (creatingTopics_mp s) t ?p\<rparr>)"
    unfolding inv_calls_def
  proof (intro ballI)
    fix c q assume "c \<in> set (calls (?s1\<lparr>creatingTopics_mp := map_set (creatingTopics_mp s) t ?p\<rparr>))"
      "q \<in> set (c_flights c)"
    with i have "served_by s c q" by (simp add: mapper_inv_def inv_calls_def)
    then show "served_by (?s1\<lparr>creatingTopics_mp := map_set (creatingTopics_mp s) t ?p\<rparr>) c q"
      by (simp add: served_by_append)
  qed
  have i1: "mapper_inv (?s1\<lparr>creatingTopics_mp := map_set (creatingTopics_mp s) t ?p\<rparr>)"
    using e c k by (simp add: mapper_inv_def)
  have "mapper_inv ((?s1\<lparr>creatingTopics_mp := map_set (creatingTopics_mp s) t ?p\<rparr>)
          \<lparr>calls := calls (?s1\<lparr>creatingTopics_mp := map_set (creatingTopics_mp s) t ?p\<rparr>) @
             [\<lparr>c_thread = t, c_outcome = Awaiting ?p,
               c_flights = (if settled ph then flights s t else flights s t @ [?p])\<rparr>]\<rparr>)"
    using i1
  proof (rule inv_add_call)
    show "\<forall>p\<in>set (c_flights \<lparr>c_thread = t, c_outcome = Awaiting ?p,
               c_flights = (if settled ph then flights s t else flights s t @ [?p])\<rparr>).
       served_by (?s1\<lparr>creatingTopics_mp := map_set (creatingTopics_mp s) t ?p\<rparr>)
         \<lparr>c_thread = t, c_outcome = Awaiting ?p,
               c_flights = (if settled ph then flights s t else flights s t @ [?p])\<rparr> p"
      by (simp add: fl_empty served_by_def)
  qed
  then show ?thesis by simp
qed

lemma inv_call: "mapper_inv s \<Longrightarrow> mapper_inv (call_step s t)"
proof -
  assume i: "mapper_inv s"
  show ?thesis
  proof (cases "map_get (chatMappings_mp s) t")
    case (Some topic)
    have "\<forall>p \<in> set (c_flights \<lparr>c_thread = t, c_outcome = Cached topic, c_flights = flights s t\<rparr>).
            served_by s \<lparr>c_thread = t, c_outcome = Cached topic, c_flights = flights s t\<rparr> p"
    proof
      fix p assume "p \<in> set (c_flights \<lparr>c_thread = t, c_outcome = Cached topic, c_flights = flights s t\<rparr>)"
      then have f: "in_flight_for s t p" by (simp add: flights_iff)
      with i have "map_get (chatMappings_mp s) t = None \<or>
        (\<exists>topic. cr_phase (creations s ! p) = Saved topic \<and> map_get (chatMappings_mp s) t = Some topic)"
        by (simp add: mapper_inv_def inv_cache_def)
      with Some f show "served_by s \<lparr>c_thread = t, c_outcome = Cached topic, c_flights = flights s t\<rparr> p"
        by (auto simp: served_by_def in_flight_for_def)
    qed
    with i have "mapper_inv (s\<lparr>calls := calls s @
        [\<lparr>c_thread = t, c_outcome = Cached topic, c_flights = flights s t\<rparr>]\<rparr>)"
      by (rule inv_add_call)
    with Some show ?thesis by (simp add: call_step_def)
  next
    case None
    show ?thesis
    proof (cases "map_get (creatingTopics_mp s) t")
      case (Some p)
      have "\<forall>q \<in> set (c_flights \<lparr>c_thread = t, c_outcome = Awaiting p, c_flights = flights s t\<rparr>).
            served_by s \<lparr>c_thread = t, c_outcome = Awaiting p, c_flights = flights s t\<rparr> q"
      proof
        fix q assume "q \<in> set (c_flights \<lparr>c_thread = t, c_outcome = Awaiting p, c_flights = flights s t\<rparr>)"
        then have f: "in_flight_for s t q" by (simp add: flights_iff)
        with i have "map_get (creatingTopics_mp s) t = Some q" by (simp add: mapper_inv_def inv_entry_def)
        with Some have "q = p" by simp
        with f show "served_by s \<lparr>c_thread = t, c_outcome = Awaiting p, c_flights = flights s t\<rparr> q"
          by (auto simp: served_by_def in_flight_for_def)
      qed
      with i have "mapper_inv (s\<lparr>calls := calls s @
          [\<lparr>c_thread = t, c_outcome = Awaiting p, c_flights = flights s t\<rparr>]\<rparr>)"
        by (rule inv_add_call)
      with None Some show ?thesis by (simp add: call_step_def)
    next
      case N2: None
      show ?thesis
        using inv_new_creation [OF i None N2, of "Settled None"]
              inv_new_creation [OF i None N2, of Creating] None N2
        by (simp add: call_step_def Let_def)
    qed
  qed
qed

lemma inv_step: "mapper_inv s \<Longrightarrow> mapper_inv (step s ev)"
proof (cases ev)
  case (Call t)
  assume "mapper_inv s"
  with Call show ?thesis by (simp add: step_def inv_call)
next
  case (TopicCreated p r)
  assume i: "mapper_inv s"
  show ?thesis
  proof (cases "phase_of s p = Some Creating")
    case True
    then have p: "p < length (creations s)" "cr_phase (creations s ! p) = Creating"
      by (auto simp: phase_of_def split: if_splits)
    show ?thesis
    proof (cases r)
      case None
      have "mapper_inv ((set_phase s p (Settled None))
                      \<lparr>creatingTopics_mp := map_delete (creatingTopics_mp s) (cr_thread (creations s ! p))\<rparr>)"
        using i p by (intro inv_settle) simp_all
      with TopicCreated True None show ?thesis by (simp add: step_def)
    next
      case (Some topic)
      with TopicCreated True i show ?thesis by (simp add: step_def inv_topic_created)
    qed
  next
    case False
    with TopicCreated i show ?thesis
      by (auto simp: step_def split: option.splits phase.splits)
  qed
next
  case (ChatSaved p ok)
  assume i: "mapper_inv s"
  then show ?thesis using ChatSaved
    by (auto simp: step_def inv_chat_saved split: option.splits phase.splits)
next
  case (Finished p)
  assume i: "mapper_inv s"
  show ?thesis
  proof (cases "\<exists>topic. phase_of s p = Some (Saved topic)")
    case True
    then obtain topic where t: "phase_of s p = Some (Saved topic)" by blast
    then have p: "p < length (creations s)" "cr_phase (creations s ! p) = Saved topic"
      by (auto simp: phase_of_def split: if_splits)
    have "mapper_inv ((set_phase s p (Settled (Some topic)))
                      \<lparr>creatingTopics_mp := map_delete (creatingTopics_mp s) (cr_thread (creations s ! p))\<rparr>)"
      using i p by (intro inv_settle) simp_all
    with Finished t show ?thesis by (simp add: step_def)
  next
    case False
    with Finished i show ?thesis
      by (auto simp: step_def split: option.splits phase.splits)
  qed
next
  case (Forget t)
  assume "mapper_inv s"
  with Forget show ?thesis by (simp add: step_def inv_forget)
qed

lemma inv_run: "mapper_inv s \<Longrightarrow> mapper_inv (run s evs)"
  unfolding run_def by (induction evs arbitrary: s) (simp_all add: inv_step)

lemma served_result:
  assumes "served_by s c p" "phase_of s p = Some (Settled r)"
  shows "call_result s c = Some r"
  using assms
  by (auto simp: served_by_def call_result_def phase_of_def split: if_splits)

lemma call_during_flight:
  assumes i: "mapper_inv s" and f: "in_flight_for s t p"
  shows "creations (call_step s t) = creations s \<and>
         creatingTopics_mp (call_step s t) = creatingTopics_mp s \<and>
         (\<exists>c. calls (call_step s t) = calls s @ [c] \<and> c_thread c = t \<and>
              set (c_flights c) = {p} \<and>
              (map_get (chatMappings_mp s) t = None \<longrightarrow> c_outcome c = Awaiting p) \<and>
              (\<forall>topic. map_get (chatMappings_mp s) t = Some topic \<longrightarrow>
                 c_outcome c = Cached topic \<and> cr_phase (creations s ! p) = Saved topic))"
proof -
  from i f have e: "map_get (creatingTopics_mp s) t = Some p"
    by (simp add: mapper_inv_def inv_entry_def)
  have "q \<in> set (flights s t) \<longleftrightarrow> q = p" for q
    using f in_flight_unique [OF i f, of q] by (auto simp: flights_iff)
  then have fl: "set (flights s t) = {p}" by blast
  from i f have c: "map_get (chatMappings_mp s) t = None \<or>
        (\<exists>topic. cr_phase (creations s ! p) = Saved topic \<and> map_get (chatMappings_mp s) t = Some topic)"
    by (simp add: mapper_inv_def inv_cache_def)
  show ?thesis
  proof (cases "map_get (chatMappings_mp s) t")
    case None
    with e fl show ?thesis by (simp add: call_step_def)
  next
    case (Some topic)
    with c fl show ?thesis by (auto simp: call_step_def)
  qed
qed

lemma step_Call: "step s (Call t) = call_step s t"
  by (simp add: step_def)

text \<open>
  Claim C2. In every state that the mapper reaches from its start, by any interleaving
  of calls, creation steps and forgotten mappings: at most one creation is in flight
  for a thread; a call for a thread with a creation in flight starts no creation, is
  served by that creation alone, and awaits its promise when no mapping is cached; every
  call made during the flight of a creation returns what that creation returns; and so
  two calls that share a flight never return different results.
\<close>

theorem single_flight:
  "(in_flight_for (run (mapper_init loaded missing) evs) t p \<and>
    in_flight_for (run (mapper_init loaded missing) evs) t q \<longrightarrow> p = q) \<and>
   (in_flight_for (run (mapper_init loaded missing) evs) t p \<longrightarrow>
      creations (step (run (mapper_init loaded missing) evs) (Call t)) =
        creations (run (mapper_init loaded missing) evs) \<and>
      (\<exists>c. calls (step (run (mapper_init loaded missing) evs) (Call t)) =
              calls (run (mapper_init loaded missing) evs) @ [c] \<and>
           set (c_flights c) = {p} \<and>
           (map_get (chatMappings_mp (run (mapper_init loaded missing) evs)) t = None
              \<longrightarrow> c_outcome c = Awaiting p))) \<and>
   (c \<in> set (calls (run (mapper_init loaded missing) evs)) \<and> p \<in> set (c_flights c) \<and>
    phase_of (run (mapper_init loaded missing) evs) p = Some (Settled r)
      \<longrightarrow> call_result (run (mapper_init loaded missing) evs) c = Some r) \<and>
   (c1 \<in> set (calls (run (mapper_init loaded missing) evs)) \<and>
    c2 \<in> set (calls (run (mapper_init loaded missing) evs)) \<and>
    p \<in> set (c_flights c1) \<and> p \<in> set (c_flights c2) \<and>
    call_result (run (mapper_init loaded missing) evs) c1 = Some r1 \<and>
    call_result (run (mapper_init loaded missing) evs) c2 = Some r2
      \<longrightarrow> r1 = r2)"
proof -
  let ?s = "run (mapper_init loaded missing) evs"
  have i: "mapper_inv ?s" using inv_init by (rule inv_run)
  have a: "p = q" if "in_flight_for ?s t p" "in_flight_for ?s t q"
    using in_flight_unique [OF i that] .
  have b: "creations (step ?s (Call t)) = creations ?s \<and>
      (\<exists>c. calls (step ?s (Call t)) = calls ?s @ [c] \<and> set (c_flights c) = {p} \<and>
           (map_get (chatMappings_mp ?s) t = None \<longrightarrow> c_outcome c = Awaiting p))"
    if f: "in_flight_for ?s t p"
  proof -
    from call_during_flight [OF i f] obtain c where
      cr: "creations (call_step ?s t) = creations ?s" and
      cl: "calls (call_step ?s t) = calls ?s @ [c]" and
      fs: "set (c_flights c) = {p}" and
      oc: "map_get (chatMappings_mp ?s) t = None \<longrightarrow> c_outcome c = Awaiting p"
      by auto
    from cl fs oc have "\<exists>c. calls (call_step ?s t) = calls ?s @ [c] \<and> set (c_flights c) = {p} \<and>
           (map_get (chatMappings_mp ?s) t = None \<longrightarrow> c_outcome c = Awaiting p)"
      by (intro exI [of _ c]) simp
    with cr show ?thesis unfolding step_Call by simp
  qed
  have sv: "served_by ?s c' p'" if "c' \<in> set (calls ?s)" "p' \<in> set (c_flights c')" for c' p'
    using i that by (simp add: mapper_inv_def inv_calls_def)
  have c: "call_result ?s c = Some r"
    if "c \<in> set (calls ?s)" "p \<in> set (c_flights c)" "phase_of ?s p = Some (Settled r)"
    using served_result [OF sv [OF that(1,2)] that(3)] .
  have d: "r1 = r2"
    if "c1 \<in> set (calls ?s)" "c2 \<in> set (calls ?s)" "p \<in> set (c_flights c1)"
       "p \<in> set (c_flights c2)" "call_result ?s c1 = Some r1" "call_result ?s c2 = Some r2"
  proof -
    from sv [OF that(1,3)] sv [OF that(2,4)] that(5,6) show ?thesis
      by (auto simp: served_by_def call_result_def phase_of_def
               split: if_splits option.splits phase.splits outcome.splits)
  qed
  from a b c d show ?thesis by blast
qed

theorem single_flight_witness:
  "in_flight_for (run (mapper_init [] False) [Call ''t1'']) ''t1'' 0 \<and>
   creations (step (run (mapper_init [] False) [Call ''t1'']) (Call ''t1'')) =
     creations (run (mapper_init [] False) [Call ''t1'']) \<and>
   length (creations (run (mapper_init [] False)
     [Call ''t1'', Call ''t1'', TopicCreated 0 (Some 5), ChatSaved 0 True, Call ''t1'',
      Finished 0])) = 1 \<and>
   map (call_result (run (mapper_init [] False)
          [Call ''t1'', Call ''t1'', TopicCreated 0 (Some 5), ChatSaved 0 True, Call ''t1'',
           Finished 0]))
       (calls (run (mapper_init [] False)
          [Call ''t1'', Call ''t1'', TopicCreated 0 (Some 5), ChatSaved 0 True, Call ''t1'',
           Finished 0]))
     = [Some (Some 5), Some (Some 5), Some (Some 5)]"
proof -
  have f: "in_flight_for (run (mapper_init [] False) [Call ''t1'']) ''t1'' 0"
    by code_simp
  have n: "length (creations (run (mapper_init [] False)
     [Call ''t1'', Call ''t1'', TopicCreated 0 (Some 5), ChatSaved 0 True, Call ''t1'',
      Finished 0])) = 1"
    by code_simp
  have r: "map (call_result (run (mapper_init [] False)
          [Call ''t1'', Call ''t1'', TopicCreated 0 (Some 5), ChatSaved 0 True, Call ''t1'',
           Finished 0]))
       (calls (run (mapper_init [] False)
          [Call ''t1'', Call ''t1'', TopicCreated 0 (Some 5), ChatSaved 0 True, Call ''t1'',
           Finished 0]))
     = [Some (Some 5), Some (Some 5), Some (Some 5)]"
    by code_simp
  from single_flight [of "[]" False "[Call ''t1'']" "''t1''" 0 0] f
  have "creations (step (run (mapper_init [] False) [Call ''t1'']) (Call ''t1'')) =
     creations (run (mapper_init [] False) [Call ''t1''])"
    by blast
  with f n r show ?thesis by blast
qed

end
